theory Spec2Isabelle
  imports Main "HOL-Library.Word"
begin

unbundle bit_operations_syntax

chapter \<open>The model\<close>

section \<open>Set digest (set\_digest.go)\<close>

text \<open>
  A \<open>setBits\<close> is a \<open>uint32\<close>. The glyph type \<open>gID\<close> is an unsigned machine
  integer declared outside the files at hand, so the digest is modelled for a glyph word of
  any width \<open>'a word\<close>. Go's \<open>g >> shift\<close> is \<open>drop_bit shift g\<close>, and
  \<open>1 << n\<close> on a \<open>uint32\<close> is \<open>push_bit n 1\<close>.
\<close>

type_synonym setBits = "32 word"

definition maskBits :: nat where
  "maskBits = 4 * 8"

definition maskFor :: "'a::len word \<Rightarrow> nat \<Rightarrow> setBits" where
  "maskFor g shift = push_bit (unat (drop_bit shift g AND of_nat (maskBits - 1))) 1"

definition setBits_add :: "setBits \<Rightarrow> 'a::len word \<Rightarrow> nat \<Rightarrow> setBits" where
  "setBits_add sd g shift = sd OR maskFor g shift"

definition setBits_addRange :: "setBits \<Rightarrow> 'a::len word \<Rightarrow> 'a word \<Rightarrow> nat \<Rightarrow> setBits" where
  "setBits_addRange sd a b shift =
     (if drop_bit shift b - drop_bit shift a \<ge> of_nat (maskBits - 1) then NOT 0
      else let mb = maskFor b shift;
               ma = maskFor a shift;
               op = (if mb < ma then 1 else 0)
           in sd OR (mb + (mb - ma) - op))"

fun setBits_addArray :: "setBits \<Rightarrow> 'a::len word list \<Rightarrow> nat \<Rightarrow> setBits" where
  "setBits_addArray sd [] shift = sd"
| "setBits_addArray sd (v # arr) shift = setBits_addArray (setBits_add sd v shift) arr shift"

definition setBits_mayHave :: "setBits \<Rightarrow> 'a::len word \<Rightarrow> nat \<Rightarrow> bool" where
  "setBits_mayHave sd g shift = (sd AND maskFor g shift \<noteq> 0)"

definition setBits_mayHaveSet :: "setBits \<Rightarrow> setBits \<Rightarrow> bool" where
  "setBits_mayHaveSet sd g = (sd AND g \<noteq> 0)"

definition shift0 :: nat where "shift0 = 4"
definition shift1 :: nat where "shift1 = 0"
definition shift2 :: nat where "shift2 = 9"

text \<open>\<open>setDigest\<close> is \<open>[3]setBits\<close>: a triple.\<close>

type_synonym setDigest = "setBits \<times> setBits \<times> setBits"

fun setDigest_add :: "setDigest \<Rightarrow> 'a::len word \<Rightarrow> setDigest" where
  "setDigest_add (s0, s1, s2) g =
     (setBits_add s0 g shift0, setBits_add s1 g shift1, setBits_add s2 g shift2)"

fun setDigest_addRange :: "setDigest \<Rightarrow> 'a::len word \<Rightarrow> 'a word \<Rightarrow> setDigest" where
  "setDigest_addRange (s0, s1, s2) a b =
     (setBits_addRange s0 a b shift0, setBits_addRange s1 a b shift1,
      setBits_addRange s2 a b shift2)"

fun setDigest_addArray :: "setDigest \<Rightarrow> 'a::len word list \<Rightarrow> setDigest" where
  "setDigest_addArray (s0, s1, s2) arr =
     (setBits_addArray s0 arr shift0, setBits_addArray s1 arr shift1,
      setBits_addArray s2 arr shift2)"

fun setDigest_mayHave :: "setDigest \<Rightarrow> 'a::len word \<Rightarrow> bool" where
  "setDigest_mayHave (s0, s1, s2) g =
     (setBits_mayHave s0 g shift0 \<and> setBits_mayHave s1 g shift1 \<and> setBits_mayHave s2 g shift2)"

fun setDigest_mayHaveDigest :: "setDigest \<Rightarrow> setDigest \<Rightarrow> bool" where
  "setDigest_mayHaveDigest (s0, s1, s2) (o0, o1, o2) =
     (setBits_mayHaveSet s0 o0 \<and> setBits_mayHaveSet s1 o1 \<and> setBits_mayHaveSet s2 o2)"

text \<open>
  The ways a glyph enters a digest: one call of \<open>add\<close>, \<open>addArray\<close> or
  \<open>addRange\<close>. \<open>inserts op g\<close> says that the call \<open>op\<close> inserts the glyph \<open>g\<close>.
\<close>

datatype 'g digestOp = Add 'g | AddArray "'g list" | AddRange 'g 'g

fun applyOp :: "setDigest \<Rightarrow> 'a::len word digestOp \<Rightarrow> setDigest" where
  "applyOp sd (Add g) = setDigest_add sd g"
| "applyOp sd (AddArray arr) = setDigest_addArray sd arr"
| "applyOp sd (AddRange a b) = setDigest_addRange sd a b"

fun inserts :: "'a::len word digestOp \<Rightarrow> 'a word \<Rightarrow> bool" where
  "inserts (Add h) g = (g = h)"
| "inserts (AddArray arr) g = (g \<in> set arr)"
| "inserts (AddRange a b) g = (a \<le> g \<and> g \<le> b)"

text \<open>The bit of a \<open>setBits\<close> word that a glyph selects under a shift.\<close>

definition bitIndex :: "'a::len word \<Rightarrow> nat \<Rightarrow> nat" where
  "bitIndex g shift = (unat g div 2 ^ shift) mod 32"

section \<open>Glyphs and the buffer (glyph.go)\<close>

type_synonym GlyphMask = "32 word"

text \<open>
  Modelled from the spec: \<open>GID\<close>, the glyph id of a \<open>GlyphInfo\<close>, is declared outside the
  files at hand; the spec gives the output glyph id as a u32. A \<open>rune\<close> is Go's 32-bit code
  point, \<open>Position\<close> is \<open>int32\<close>, and Go's \<open>int\<close> is modelled as \<open>int\<close>.
\<close>

type_synonym GID = "32 word"
type_synonym rune = "32 word"
type_synonym Position = "32 word"

definition GlyphUnsafeToBreak :: GlyphMask where
  "GlyphUnsafeToBreak = push_bit 0 1"

definition GlyphUnsafeToConcat :: GlyphMask where
  "GlyphUnsafeToConcat = push_bit 1 1"

definition GlyphSafeToInsertTatweel :: GlyphMask where
  "GlyphSafeToInsertTatweel = push_bit 2 1"

definition glyphFlagDefined :: GlyphMask where
  "glyphFlagDefined = GlyphUnsafeToBreak OR GlyphUnsafeToConcat OR GlyphSafeToInsertTatweel"

record GlyphPosition =
  XAdvance :: Position
  XOffset :: Position
  YAdvance :: Position
  YOffset :: Position
  attachChain :: "16 word"
  attachType :: "8 word"

type_synonym unicodeProp = "16 word"

definition upropsMaskIgnorable :: unicodeProp where
  "upropsMaskIgnorable = push_bit 5 1"

definition upropsMaskHidden :: unicodeProp where
  "upropsMaskHidden = push_bit 6 1"

definition upropsMaskContinuation :: unicodeProp where
  "upropsMaskContinuation = push_bit 7 1"

record GlyphInfo =
  Cluster :: int
  codepoint :: rune
  Glyph :: GID
  Mask :: GlyphMask
  glyphProps :: "16 word"
  ligProps :: "8 word"
  syllable :: "8 word"
  unicode :: unicodeProp
  complexCategory :: "8 word"
  complexAux :: "8 word"

text \<open>
  The bit \<open>substituted\<close> of \<open>glyphProps\<close> is a constant declared outside the files at
  hand; the functions that test it take it as the parameter \<open>substitutedBit\<close>.
\<close>

definition substituted :: "16 word \<Rightarrow> GlyphInfo \<Rightarrow> bool" where
  "substituted substitutedBit info = (glyphProps info AND substitutedBit \<noteq> 0)"

definition isDefaultIgnorable :: "16 word \<Rightarrow> GlyphInfo \<Rightarrow> bool" where
  "isDefaultIgnorable substitutedBit info =
     (unicode info AND upropsMaskIgnorable \<noteq> 0 \<and> \<not> substituted substitutedBit info)"

text \<open>
  Modelled from the spec: the \<open>Buffer\<close> type is declared outside the files at hand. The
  spec gives it the glyph sequence \<open>Info\<close>, the parallel \<open>Pos\<close>, the cursor \<open>idx\<close>, the
  \<open>Invisible\<close> glyph id, the caller's flags, the \<open>scratchFlags\<close> bitset and the counters
  \<open>maxOps\<close> and \<open>maxLen\<close>. The bit values of the two flag words are not in the files at
  hand either: a flag word is modelled as the set of the flags that are set in it, so that
  \<open>buffer.Flags&F != 0\<close> reads \<open>F \<in> Flags buffer\<close>.
\<close>

datatype ShappingOptions =
  PreserveDefaultIgnorables
  | RemoveDefaultIgnorables
  | ProduceUnsafeToConcat
  | ProduceSafeToInsertTatweel

datatype bufferScratchFlags =
  bsfHasNonASCII
  | bsfHasDefaultIgnorables
  | bsfHasSpaceFallback
  | bsfHasGPOSAttachment
  | bsfHasGlyphFlags

record Buffer =
  Info :: "GlyphInfo list"
  Pos :: "GlyphPosition list"
  idx :: int
  Invisible :: GID
  Flags :: "ShappingOptions set"
  scratchFlags :: "bufferScratchFlags set"
  maxOps :: int
  maxLen :: int

section \<open>Propagation of the glyph flags (ot\_shaper.go)\<close>

text \<open>
  Modelled from the spec: \<open>Buffer.clusterIterator\<close> is declared outside the files at hand.
  A cluster is a set of glyphs that share a cluster id; the iterator yields, in order, the
  index ranges \<open>(start, end)\<close> of the maximal runs of consecutive glyphs with equal
  \<open>Cluster\<close>. \<open>clusterRangesFrom start infos\<close> lists the ranges of the glyphs \<open>infos\<close>
  that begin at index \<open>start\<close>.
\<close>

function clusterRangesFrom :: "nat \<Rightarrow> GlyphInfo list \<Rightarrow> (nat \<times> nat) list" where
  "clusterRangesFrom start [] = []"
| "clusterRangesFrom start (g # rest) =
     (let n = length (takeWhile (\<lambda>h. Cluster h = Cluster g) rest)
      in (start, Suc start + n) #
         clusterRangesFrom (Suc start + n) (dropWhile (\<lambda>h. Cluster h = Cluster g) rest))"
  by pat_completeness auto
termination
  by (relation "measure (\<lambda>(start, infos). length infos)")
     (auto simp: length_dropWhile_le less_Suc_eq_le)

definition clusterIterator :: "Buffer \<Rightarrow> (nat \<times> nat) list" where
  "clusterIterator buffer = clusterRangesFrom 0 (Info buffer)"

text \<open>The first inner loop: the OR of the defined flags of the glyphs in \<open>[start, end)\<close>.\<close>

definition clusterMask :: "GlyphInfo list \<Rightarrow> nat \<Rightarrow> nat \<Rightarrow> GlyphMask" where
  "clusterMask info start end =
     foldl (\<lambda>msk i. msk OR (Mask (info ! i) AND glyphFlagDefined)) 0 [start..<end]"

text \<open>The two \<open>if\<close> blocks between the inner loops.\<close>

definition flipTatweelMask :: "GlyphMask \<Rightarrow> GlyphMask" where
  "flipTatweelMask msk =
     (let msk1 = (if msk AND GlyphUnsafeToBreak \<noteq> 0
                   then msk AND NOT GlyphSafeToInsertTatweel else msk)
      in if msk1 AND GlyphSafeToInsertTatweel \<noteq> 0
         then msk1 OR (GlyphUnsafeToBreak OR GlyphUnsafeToConcat) else msk1)"

definition adjustMask :: "bool \<Rightarrow> bool \<Rightarrow> GlyphMask \<Rightarrow> GlyphMask" where
  "adjustMask flipTatweel clearConcat msk =
     (let msk1 = (if flipTatweel then flipTatweelMask msk else msk)
      in if clearConcat then msk1 AND NOT GlyphUnsafeToConcat else msk1)"

text \<open>The second inner loop: \<open>info[i].Mask = mask\<close> for \<open>i\<close> in \<open>[start, end)\<close>.\<close>

definition setMaskRange :: "GlyphInfo list \<Rightarrow> nat \<Rightarrow> nat \<Rightarrow> GlyphMask \<Rightarrow> GlyphInfo list" where
  "setMaskRange info start end msk =
     foldl (\<lambda>xs i. xs[i := (xs ! i)\<lparr>Mask := msk\<rparr>]) info [start..<end]"

definition propagateCluster :: "bool \<Rightarrow> bool \<Rightarrow> GlyphInfo list \<Rightarrow> nat \<times> nat \<Rightarrow> GlyphInfo list" where
  "propagateCluster flipTatweel clearConcat info r =
     (case r of (start, end) \<Rightarrow>
        setMaskRange info start end (adjustMask flipTatweel clearConcat (clusterMask info start end)))"

definition propagateFlags :: "Buffer \<Rightarrow> Buffer" where
  "propagateFlags buffer =
     (if bsfHasGlyphFlags \<notin> scratchFlags buffer then buffer
      else let flipTatweel = (ProduceSafeToInsertTatweel \<in> Flags buffer);
               clearConcat = (ProduceUnsafeToConcat \<notin> Flags buffer)
           in buffer\<lparr>Info := foldl (propagateCluster flipTatweel clearConcat) (Info buffer)
                                (clusterIterator buffer)\<rparr>)"

section \<open>Hiding default ignorables (ot\_shaper.go)\<close>

text \<open>
  Modelled from the spec: \<open>otLayoutDeleteGlyphsInplace\<close> (the buffer operation
  \<open>deleteGlyphsInplace(pred)\<close>) is declared outside the files at hand. It deletes from the
  buffer the glyphs that satisfy the predicate and keeps the others, with their positions, in
  order. The spec does not say how the clusters of the deleted glyphs are merged into their
  neighbours; the model leaves the kept glyphs as they are.
\<close>

definition otLayoutDeleteGlyphsInplace :: "Buffer \<Rightarrow> (GlyphInfo \<Rightarrow> bool) \<Rightarrow> Buffer" where
  "otLayoutDeleteGlyphsInplace buffer pred =
     buffer\<lparr>Info := filter (\<lambda>g. \<not> pred g) (Info buffer),
            Pos := map snd (filter (\<lambda>(g, p). \<not> pred g) (zip (Info buffer) (Pos buffer)))\<rparr>"

text \<open>
  \<open>font.face.NominalGlyph\<close> belongs to the font, outside the files at hand; it is the
  parameter \<open>NominalGlyph\<close>, which returns a glyph and whether the font has one. The local
  \<open>ok\<close> starts as \<open>false\<close> and is only assigned by that call.
\<close>

definition hideDefaultIgnorables ::
  "16 word \<Rightarrow> (rune \<Rightarrow> GID \<times> bool) \<Rightarrow> Buffer \<Rightarrow> Buffer" where
  "hideDefaultIgnorables substitutedBit NominalGlyph buffer =
     (if bsfHasDefaultIgnorables \<notin> scratchFlags buffer \<or>
         PreserveDefaultIgnorables \<in> Flags buffer
      then buffer
      else let (invisible, ok) =
                 (if Invisible buffer = 0 then NominalGlyph 0x20 else (Invisible buffer, False))
           in if RemoveDefaultIgnorables \<notin> Flags buffer \<and> ok
              then buffer\<lparr>Info := map (\<lambda>info. if isDefaultIgnorable substitutedBit info
                                               then info\<lparr>Glyph := invisible\<rparr> else info)
                                    (Info buffer)\<rparr>
              else otLayoutDeleteGlyphsInplace buffer (isDefaultIgnorable substitutedBit))"

section \<open>The apply context (hb-ot-layout-gsubgpos port)\<close>

text \<open>
  A Go panic (an index out of range, a call of a nil function) is a value of \<open>panic\<close>;
  a function that can panic returns \<open>panic + 'a\<close>.
\<close>

datatype panic = IndexOutOfRange | NilFunctionCall

text \<open>
  The fields of \<open>otApplyContext\<close>, but for the references to the font and its tables, the
  two iterators and the direction. The buffer field is named \<open>ctxBuffer\<close>. The field
  \<open>recurseFunc\<close> is a function on the context itself, so it is passed next to the context
  (\<open>None\<close> is Go's \<open>nil\<close>).
\<close>

record otApplyContext =
  ctxBuffer :: Buffer
  indices :: "16 word list"
  digest :: setDigest
  nestingLevelLeft :: int
  tableIndex :: nat
  lookupMask :: GlyphMask
  lookupProps :: "32 word"
  randomState :: "32 word"
  lookupIndex :: "16 word"
  hasGlyphClasses :: bool
  autoZWNJ :: bool
  autoZWJ :: bool
  perSyllable :: bool
  newSyllables :: "8 word"
  random :: bool
  lastBase :: int
  lastBaseUntil :: int

type_synonym recurseFunc = "otApplyContext \<Rightarrow> 16 word \<Rightarrow> panic + bool \<times> otApplyContext"

text \<open>
  Modelled from the spec: the constant \<open>maxNestingLevel\<close> is declared outside the files at
  hand; the spec gives the initial value of \<open>nestingLevelLeft\<close> as 64.
\<close>

definition maxNestingLevel :: int where
  "maxNestingLevel = 64"

text \<open>
  \<open>reset\<close>: \<open>buffer.digest()\<close> and \<open>gdef.GlyphClassDef != nil\<close> come from outside the files
  at hand and are the parameters \<open>bufferDigest\<close> and \<open>fontHasGlyphClasses\<close>. It also sets
  \<open>recurseFunc\<close> to nil.
\<close>

definition reset ::
  "(Buffer \<Rightarrow> setDigest) \<Rightarrow> bool \<Rightarrow> otApplyContext \<Rightarrow> nat \<Rightarrow> Buffer \<Rightarrow> otApplyContext" where
  "reset bufferDigest fontHasGlyphClasses c tableIdx buffer =
     c\<lparr>ctxBuffer := buffer, indices := [], digest := bufferDigest buffer,
       nestingLevelLeft := maxNestingLevel, tableIndex := tableIdx, lookupMask := 1,
       lookupProps := 0, randomState := 1, lookupIndex := 0,
       hasGlyphClasses := fontHasGlyphClasses, autoZWNJ := True, autoZWJ := True,
       perSyllable := False, newSyllables := 0xFF, random := False,
       lastBase := - 1, lastBaseUntil := 0\<rparr>"

definition decMaxOps :: "otApplyContext \<Rightarrow> otApplyContext" where
  "decMaxOps c = c\<lparr>ctxBuffer := (ctxBuffer c)\<lparr>maxOps := maxOps (ctxBuffer c) - 1\<rparr>\<rparr>"

text \<open>
  The three statements after the guard of \<open>recurse\<close>: decrement \<open>nestingLevelLeft\<close>, call
  \<open>c.recurseFunc\<close>, increment \<open>nestingLevelLeft\<close>.
\<close>

definition recurseCall ::
  "recurseFunc option \<Rightarrow> otApplyContext \<Rightarrow> 16 word \<Rightarrow> panic + bool \<times> otApplyContext" where
  "recurseCall recurseFn c subLookupIndex =
     (case recurseFn of
        None \<Rightarrow> Inl NilFunctionCall
      | Some f \<Rightarrow>
          (case f (c\<lparr>nestingLevelLeft := nestingLevelLeft c - 1\<rparr>) subLookupIndex of
             Inl p \<Rightarrow> Inl p
           | Inr (ret, c') \<Rightarrow> Inr (ret, c'\<lparr>nestingLevelLeft := nestingLevelLeft c' + 1\<rparr>)))"

definition recurse ::
  "recurseFunc option \<Rightarrow> otApplyContext \<Rightarrow> 16 word \<Rightarrow> panic + bool \<times> otApplyContext" where
  "recurse recurseFn c subLookupIndex =
     (if nestingLevelLeft c = 0 \<or> recurseFn = None \<or> maxOps (ctxBuffer c) \<le> 0
      then if maxOps (ctxBuffer c) \<le> 0
           then Inr (False, decMaxOps c)
           else recurseCall recurseFn (decMaxOps c) subLookupIndex
      else recurseCall recurseFn c subLookupIndex)"

text \<open>
  A lookup that recurses into itself \<open>n\<close> levels deep through \<open>recurse\<close> and then
  succeeds: what \<open>recurseFunc\<close> does on a font whose contextual lookups are nested \<open>n\<close>
  deep.
\<close>

fun nestedLookup :: "nat \<Rightarrow> recurseFunc" where
  "nestedLookup 0 c lookupIdx = Inr (True, c)"
| "nestedLookup (Suc n) c lookupIdx = recurse (Some (nestedLookup n)) c lookupIdx"

section \<open>Applying the lookups of a table (hb-ot-map port)\<close>

record lookupMap =
  lm_index :: "16 word"
  lm_autoZWNJ :: bool
  lm_autoZWJ :: bool
  lm_random :: bool
  lm_perSyllable :: bool
  lm_featureTag :: "32 word"
  lm_mask :: GlyphMask

text \<open>
  A pause function mutates the buffer and returns whether glyphs may have been added; here it
  returns both. \<open>nil\<close> is \<open>None\<close>.
\<close>

type_synonym pauseFunc = "Buffer \<Rightarrow> bool \<times> Buffer"

record stageMap =
  pauseFunc :: "pauseFunc option"
  lastLookup :: int

text \<open>
  Of an \<open>otLayoutLookupAccelerator\<close> the function \<open>apply\<close> reads the digest; the lookup
  and its subtables are used by \<open>applyString\<close>, which is outside the files at hand and is
  the parameter \<open>applyString\<close>: it takes the context and the index of the accelerator.
\<close>

type_synonym applyStringFunc = "otApplyContext \<Rightarrow> 16 word \<Rightarrow> otApplyContext"

text \<open>
  The inner loop of \<open>otMap.apply\<close>, \<open>for ; i < stage.lastLookup; i++\<close>. The result says
  whether the function returned from inside the loop (the \<open>maxLen\<close> check), and gives the
  index and the context then.
\<close>

function applyLookups ::
  "applyStringFunc \<Rightarrow> setDigest list \<Rightarrow> lookupMap list \<Rightarrow> int \<Rightarrow> int \<Rightarrow> otApplyContext \<Rightarrow>
   panic + bool \<times> int \<times> otApplyContext" where
  "applyLookups applyString accels lookups lastLk i c =
     (if i < lastLk then
        if i < 0 \<or> int (length lookups) \<le> i then Inl IndexOutOfRange
        else let lookup = lookups ! nat i in
          if length accels \<le> unat (lm_index lookup) then Inl IndexOutOfRange
          else if setDigest_mayHaveDigest (accels ! unat (lm_index lookup)) (digest c)
          then let c1 = c\<lparr>lookupIndex := lm_index lookup, lookupMask := lm_mask lookup,
                           autoZWJ := lm_autoZWJ lookup, autoZWNJ := lm_autoZWNJ lookup,
                           random := lm_random lookup, perSyllable := lm_perSyllable lookup\<rparr>
               in if int (length (Info (ctxBuffer c1))) > maxLen (ctxBuffer c1)
                  then Inr (True, i, c1)
                  else applyLookups applyString accels lookups lastLk (i + 1)
                         (applyString c1 (lm_index lookup))
          else applyLookups applyString accels lookups lastLk (i + 1) c
      else Inr (False, i, c))"
  by pat_completeness auto
termination
  by (relation "measure (\<lambda>(applyString, accels, lookups, lastLk, i, c). nat (lastLk - i))") auto

text \<open>The pause function at the end of a stage.\<close>

definition runPause :: "(Buffer \<Rightarrow> setDigest) \<Rightarrow> stageMap \<Rightarrow> otApplyContext \<Rightarrow> otApplyContext" where
  "runPause bufferDigest stage c =
     (case pauseFunc stage of
        None \<Rightarrow> c
      | Some f \<Rightarrow>
          (case f (ctxBuffer c) of
             (changed, buffer') \<Rightarrow>
               if changed then c\<lparr>ctxBuffer := buffer', digest := bufferDigest buffer'\<rparr>
               else c\<lparr>ctxBuffer := buffer'\<rparr>))"

text \<open>The outer loop over the stages; the first component says whether \<open>apply\<close> returned early.\<close>

fun applyStages ::
  "applyStringFunc \<Rightarrow> (Buffer \<Rightarrow> setDigest) \<Rightarrow> setDigest list \<Rightarrow> lookupMap list \<Rightarrow>
   stageMap list \<Rightarrow> int \<Rightarrow> otApplyContext \<Rightarrow> panic + bool \<times> otApplyContext" where
  "applyStages applyString bufferDigest accels lookups [] i c = Inr (False, c)"
| "applyStages applyString bufferDigest accels lookups (stage # stages) i c =
     (case applyLookups applyString accels lookups (lastLookup stage) i c of
        Inl p \<Rightarrow> Inl p
      | Inr (returned, i', c') \<Rightarrow>
          if returned then Inr (True, c')
          else applyStages applyString bufferDigest accels lookups stages i'
                 (runPause bufferDigest stage c'))"

text \<open>
  \<open>otMap.apply\<close> for one table: \<open>lookups\<close> and \<open>stages\<close> are \<open>m.lookups[tableIndex]\<close> and
  \<open>m.stages[tableIndex]\<close>, \<open>accels\<close> the digests of \<open>proxy.accels\<close>, \<open>c\<close> the map's
  \<open>applyContext\<close>.
\<close>

definition otMap_apply ::
  "applyStringFunc \<Rightarrow> (Buffer \<Rightarrow> setDigest) \<Rightarrow> bool \<Rightarrow> setDigest list \<Rightarrow> nat \<Rightarrow>
   lookupMap list \<Rightarrow> stageMap list \<Rightarrow> otApplyContext \<Rightarrow> Buffer \<Rightarrow> panic + bool \<times> otApplyContext" where
  "otMap_apply applyString bufferDigest fontHasGlyphClasses accels tableIdx lookups stages c buffer =
     applyStages applyString bufferDigest accels lookups stages 0
       (reset bufferDigest fontHasGlyphClasses c tableIdx buffer)"

text \<open>The two limits that \<open>shaperOpentype.shape\<close> sets on the buffer at its start.\<close>

definition shapeLimits :: "Buffer \<Rightarrow> Buffer" where
  "shapeLimits buffer =
     buffer\<lparr>maxOps := max (int (length (Info buffer)) * 1024) 16384,
            maxLen := max (int (length (Info buffer)) * 64) 16384\<rparr>"

section \<open>Compiling the feature map (hb-ot-map port)\<close>

type_synonym Tag = "32 word"
type_synonym otMapFeatureFlags = "8 word"

definition ffGLOBAL :: otMapFeatureFlags where
  "ffGLOBAL = push_bit 0 1"

definition ffHasFallback :: otMapFeatureFlags where
  "ffHasFallback = push_bit 1 1"

definition ffManualZWNJ :: otMapFeatureFlags where
  "ffManualZWNJ = push_bit 2 1"

definition ffManualZWJ :: otMapFeatureFlags where
  "ffManualZWJ = push_bit 3 1"

definition ffGlobalSearch :: otMapFeatureFlags where
  "ffGlobalSearch = push_bit 4 1"

definition ffRandom :: otMapFeatureFlags where
  "ffRandom = push_bit 5 1"

definition ffPerSyllable :: otMapFeatureFlags where
  "ffPerSyllable = push_bit 6 1"

definition otMapMaxBits :: nat where
  "otMapMaxBits = 8"

definition NoFeatureIndex :: "16 word" where
  "NoFeatureIndex = 0xFFFF"

text \<open>\<open>stage\<close> is \<open>[2]int\<close>, GSUB then GPOS: a pair.\<close>

record featureInfo =
  Tag :: Tag
  maxValue :: "32 word"
  flags :: otMapFeatureFlags
  defaultValue :: "32 word"
  stage :: "int \<times> int"

subsection \<open>Sorting the features and merging the duplicates\<close>

text \<open>
  The body of the merge loop for a feature \<open>feat\<close> with the tag of \<open>mb.featureInfos[j]\<close>,
  here \<open>fj\<close>. \<open>max32\<close> is the maximum of two \<open>uint32\<close>.
\<close>

definition mergeDuplicate :: "featureInfo \<Rightarrow> featureInfo \<Rightarrow> featureInfo" where
  "mergeDuplicate fj feat =
     (let fj1 = (if flags feat AND ffGLOBAL \<noteq> 0
                 then fj\<lparr>flags := flags fj OR ffGLOBAL, maxValue := maxValue feat,
                         defaultValue := defaultValue feat\<rparr>
                 else let fj0 = (if flags fj AND ffGLOBAL \<noteq> 0
                                 then fj\<lparr>flags := flags fj XOR ffGLOBAL\<rparr> else fj)
                      in fj0\<lparr>maxValue := max (maxValue fj0) (maxValue feat)\<rparr>);
          fj2 = fj1\<lparr>flags := flags fj1 OR (flags feat AND ffHasFallback)\<rparr>
      in fj2\<lparr>stage := (min (fst (stage fj2)) (fst (stage feat)),
                        min (snd (stage fj2)) (snd (stage feat)))\<rparr>)"

text \<open>
  The merge loop, in place in the source: \<open>cur\<close> is \<open>mb.featureInfos[j]\<close>, the list holds
  the features from index \<open>i\<close> on, and the result is \<open>mb.featureInfos[j:]\<close> at the end.
\<close>

fun mergeFrom :: "featureInfo \<Rightarrow> featureInfo list \<Rightarrow> featureInfo list" where
  "mergeFrom cur [] = [cur]"
| "mergeFrom cur (feat # rest) =
     (if Tag feat \<noteq> Tag cur then cur # mergeFrom feat rest
      else mergeFrom (mergeDuplicate cur feat) rest)"

text \<open>
  \<open>sort.SliceStable\<close> by tag is the stable sort \<open>sort_key Tag\<close>; tags compare as unsigned
  32-bit numbers.
\<close>

definition mergeFeatureInfos :: "featureInfo list \<Rightarrow> featureInfo list" where
  "mergeFeatureInfos infos =
     (if length infos \<noteq> 0
      then (case sort_key Tag infos of [] \<Rightarrow> [] | f # fs \<Rightarrow> mergeFrom f fs)
      else infos)"

subsection \<open>Adding features to the builder\<close>

text \<open>Of \<open>otMapBuilder\<close>, the list of features and the current stage of the two tables.\<close>

record otMapBuilder =
  featureInfos :: "featureInfo list"
  currentStage :: "int \<times> int"

definition addFeatureExt :: "otMapBuilder \<Rightarrow> Tag \<Rightarrow> otMapFeatureFlags \<Rightarrow> 32 word \<Rightarrow> otMapBuilder" where
  "addFeatureExt mb tag flgs val =
     mb\<lparr>featureInfos := featureInfos mb @
          [\<lparr>Tag = tag, maxValue = val, flags = flgs,
            defaultValue = (if flgs AND ffGLOBAL \<noteq> 0 then val else 0),
            stage = currentStage mb\<rparr>]\<rparr>"

definition enableFeatureExt :: "otMapBuilder \<Rightarrow> Tag \<Rightarrow> otMapFeatureFlags \<Rightarrow> 32 word \<Rightarrow> otMapBuilder" where
  "enableFeatureExt mb tag flgs val = addFeatureExt mb tag (ffGLOBAL OR flgs) val"

definition enableFeature :: "otMapBuilder \<Rightarrow> Tag \<Rightarrow> otMapBuilder" where
  "enableFeature mb tag = enableFeatureExt mb tag 0 1"

definition addFeature :: "otMapBuilder \<Rightarrow> Tag \<Rightarrow> otMapBuilder" where
  "addFeature mb tag = addFeatureExt mb tag 0 1"

definition disableFeature :: "otMapBuilder \<Rightarrow> Tag \<Rightarrow> otMapBuilder" where
  "disableFeature mb tag = addFeatureExt mb tag ffGLOBAL 0"

subsection \<open>Allocating the mask bits\<close>

record featureMap =
  fm_tag :: Tag
  fm_index :: "16 word \<times> 16 word"
  fm_stage :: "int \<times> int"
  fm_shift :: nat
  fm_mask :: GlyphMask
  fm_mask1 :: GlyphMask
  fm_needsFallback :: bool
  fm_autoZWNJ :: bool
  fm_autoZWJ :: bool
  fm_random :: bool
  fm_perSyllable :: bool

text \<open>Of \<open>otMap\<close>, the two fields that the allocation writes.\<close>

record otMap =
  features :: "featureMap list"
  globalMask :: GlyphMask

text \<open>
  What the allocation asks of the font, through functions outside the files at hand: the tags
  of the required features of the two tables (\<open>getRequiredFeature\<close>), and the index of a
  feature by tag in a table, under the chosen script and language (\<open>findFeatureForLang\<close>) and
  among all features (\<open>findFeature\<close>). The table is 0 for GSUB and 1 for GPOS.
\<close>

record layoutTables =
  requiredFeatureTag :: "Tag \<times> Tag"
  findFeatureForLang :: "nat \<Rightarrow> Tag \<Rightarrow> 16 word"
  findFeature :: "nat \<Rightarrow> Tag \<Rightarrow> 16 word"

definition globalBitShift :: nat where
  "globalBitShift = 8 * 4 - 1"

definition globalBitMask :: GlyphMask where
  "globalBitMask = push_bit globalBitShift 1"

text \<open>\<open>bits.OnesCount32\<close>: the number of bits set.\<close>

definition OnesCount32 :: "32 word \<Rightarrow> nat" where
  "OnesCount32 w = length (filter (bit w) [0..<32])"

text \<open>
  Modelled from the spec: \<open>bitStorage\<close> is declared outside the files at hand; the spec gives
  \<open>bitsNeeded = min(8, ceil(log2(maxValue+1)))\<close>, so \<open>bitStorage v\<close> is the number of bits
  of \<open>v\<close>.
\<close>

fun bitLength :: "nat \<Rightarrow> nat" where
  "bitLength n = (if n = 0 then 0 else Suc (bitLength (n div 2)))"

definition bitStorage :: "32 word \<Rightarrow> nat" where
  "bitStorage v = bitLength (unat v)"

text \<open>
  The condition \<open>(info.flags&ffGLOBAL) != 0 && info.maxValue == 1\<close>, which the loop tests
  twice: the feature uses the global bit.
\<close>

definition usesGlobalBit :: "featureInfo \<Rightarrow> bool" where
  "usesGlobalBit info = (flags info AND ffGLOBAL \<noteq> 0 \<and> maxValue info = 1)"

definition bitsNeededFor :: "featureInfo \<Rightarrow> nat" where
  "bitsNeededFor info =
     (if usesGlobalBit info then 0 else min otMapMaxBits (bitStorage (maxValue info)))"

text \<open>
  The two loops over the tables: they set the stage of a required feature with the tag of
  \<open>info\<close>, look the feature up under the chosen script and language and, when it is not found
  and \<open>ffGlobalSearch\<close> is set, among all features. The result is the new
  \<open>requiredFeatureStage\<close>, \<open>featureIndex\<close> and \<open>found\<close>.
\<close>

definition findFeatureIndices ::
  "layoutTables \<Rightarrow> featureInfo \<Rightarrow> int \<times> int \<Rightarrow> (int \<times> int) \<times> (16 word \<times> 16 word) \<times> bool" where
  "findFeatureIndices font info reqStage =
     (let reqStage0 = (if fst (requiredFeatureTag font) = Tag info
                       then (fst (stage info), snd reqStage) else reqStage);
          index0 = findFeatureForLang font 0 (Tag info);
          reqStage1 = (if snd (requiredFeatureTag font) = Tag info
                       then (fst reqStage0, snd (stage info)) else reqStage0);
          index1 = findFeatureForLang font 1 (Tag info);
          found1 = (index0 \<noteq> NoFeatureIndex \<or> index1 \<noteq> NoFeatureIndex)
      in if \<not> found1 \<and> flags info AND ffGlobalSearch \<noteq> 0
         then (reqStage1, (findFeature font 0 (Tag info), findFeature font 1 (Tag info)),
               findFeature font 0 (Tag info) \<noteq> NoFeatureIndex \<or>
               findFeature font 1 (Tag info) \<noteq> NoFeatureIndex)
         else (reqStage1, (index0, index1), found1))"

text \<open>The \<open>featureMap\<close> record \<open>map_\<close> of a feature, given its shift and mask.\<close>

definition newFeatureMap ::
  "featureInfo \<Rightarrow> 16 word \<times> 16 word \<Rightarrow> bool \<Rightarrow> nat \<Rightarrow> GlyphMask \<Rightarrow> featureMap" where
  "newFeatureMap info featureIndex found shift msk =
     \<lparr>fm_tag = Tag info, fm_index = featureIndex, fm_stage = stage info,
      fm_shift = shift, fm_mask = msk, fm_mask1 = push_bit shift 1 AND msk,
      fm_needsFallback = (\<not> found),
      fm_autoZWNJ = (flags info AND ffManualZWNJ = 0),
      fm_autoZWJ = (flags info AND ffManualZWJ = 0),
      fm_random = (flags info AND ffRandom \<noteq> 0),
      fm_perSyllable = (flags info AND ffPerSyllable \<noteq> 0)\<rparr>"

text \<open>
  The body of the loop \<open>for _, info := range mb.featureInfos\<close>. The state is \<open>nextBit\<close>,
  \<open>requiredFeatureStage\<close> and the map; \<open>nextBit\<close> and the shifts are Go \<open>int\<close>s that start
  at 4 and only grow, modelled as \<open>nat\<close>.
\<close>

definition allocFeature ::
  "layoutTables \<Rightarrow> nat \<times> (int \<times> int) \<times> otMap \<Rightarrow> featureInfo \<Rightarrow> nat \<times> (int \<times> int) \<times> otMap" where
  "allocFeature font st info =
     (case st of (nextBit, reqStage, m) \<Rightarrow>
        let bitsNeeded = bitsNeededFor info
        in if maxValue info = 0 \<or> nextBit + bitsNeeded \<ge> globalBitShift then st
           else
             (case findFeatureIndices font info reqStage of (reqStage1, featureIndex, found) \<Rightarrow>
                if \<not> found \<and> flags info AND ffHasFallback = 0 then (nextBit, reqStage1, m)
                else if usesGlobalBit info
                then (nextBit, reqStage1,
                      m\<lparr>features := features m @
                          [newFeatureMap info featureIndex found globalBitShift globalBitMask]\<rparr>)
                else
                  let msk = push_bit (nextBit + bitsNeeded) 1 - push_bit nextBit 1
                  in (nextBit + bitsNeeded, reqStage1,
                      m\<lparr>features := features m @
                          [newFeatureMap info featureIndex found nextBit msk],
                        globalMask := globalMask m OR
                          (push_bit nextBit (defaultValue info) AND msk)\<rparr>)))"

text \<open>
  \<open>compile\<close> up to the end of the allocation loop: the map starts with the global bit as
  its \<open>globalMask\<close>, the features are sorted and merged, then bits are allocated feature by
  feature from \<open>nextBit = bits.OnesCount32(glyphFlagDefined) + 1\<close>.
\<close>

definition compileFeatures :: "layoutTables \<Rightarrow> featureInfo list \<Rightarrow> nat \<times> (int \<times> int) \<times> otMap" where
  "compileFeatures font infos =
     foldl (allocFeature font)
       (OnesCount32 glyphFlagDefined + 1, (0, 0), \<lparr>features = [], globalMask = globalBitMask\<rparr>)
       (mergeFeatureInfos infos)"

definition compiledMap :: "layoutTables \<Rightarrow> featureInfo list \<Rightarrow> otMap" where
  "compiledMap font infos = snd (snd (compileFeatures font infos))"

subsection \<open>The invariant of the allocation loop\<close>

text \<open>
  A feature of the map is in order, for the features \<open>infos\<close> seen so far, the global mask
  \<open>gm\<close> and the next free bit \<open>nb\<close>, when it comes from one of the features seen, its
  default-value contribution is inside \<open>gm\<close>, and either it uses the global bit (its feature
  is global with \<open>maxValue\<close> 1) or its mask is a field of at most 8 bits that lies from bit 4
  on and below \<open>nb\<close>.
\<close>

definition okFeature :: "featureInfo list \<Rightarrow> GlyphMask \<Rightarrow> nat \<Rightarrow> featureMap \<Rightarrow> bool" where
  "okFeature infos gm nb f =
     (\<exists>info\<in>set infos. Tag info = fm_tag f \<and>
        (push_bit (fm_shift f) (defaultValue info) AND fm_mask f) AND NOT gm = 0 \<and>
        (fm_shift f = globalBitShift \<and> fm_mask f = globalBitMask \<and> usesGlobalBit info \<or>
         (\<exists>n. 1 \<le> n \<and> n \<le> 8 \<and> 4 \<le> fm_shift f \<and> fm_shift f + n \<le> nb \<and>
              fm_mask f = push_bit (fm_shift f) (mask n))))"

definition allocInv :: "featureInfo list \<Rightarrow> nat \<times> (int \<times> int) \<times> otMap \<Rightarrow> bool" where
  "allocInv infos st =
     (case st of (nb, reqStage, m) \<Rightarrow>
        4 \<le> nb \<and> nb < globalBitShift \<and> bit (globalMask m) globalBitShift \<and>
        (\<forall>f\<in>set (features m). okFeature infos (globalMask m) nb f) \<and>
        (\<forall>i<length (features m). \<forall>j<length (features m).
            i \<noteq> j \<and> fm_shift (features m ! i) \<noteq> globalBitShift \<longrightarrow>
            fm_mask (features m ! i) AND fm_mask (features m ! j) = 0))"

section \<open>The Khmer shaper: reordering a consonant syllable\<close>

text \<open>\<open>GlyphInfo.setCluster\<close> (glyph.go).\<close>

definition setCluster :: "GlyphInfo \<Rightarrow> int \<Rightarrow> GlyphMask \<Rightarrow> GlyphInfo" where
  "setCluster info cluster msk =
     (if Cluster info \<noteq> cluster
      then info\<lparr>Mask := (Mask info AND NOT glyphFlagDefined) OR (msk AND glyphFlagDefined)\<rparr>
      else info)\<lparr>Cluster := cluster\<rparr>"

text \<open>
  A loop \<open>for j := a; j < b; j++ { info[j] = f(info[j]) }\<close> over a range of the glyphs.
\<close>

definition updRange :: "('a \<Rightarrow> 'a) \<Rightarrow> nat \<Rightarrow> nat \<Rightarrow> 'a list \<Rightarrow> 'a list" where
  "updRange f a b xs = foldl (\<lambda>ys j. ys[j := f (ys ! j)]) xs [a..<b]"

text \<open>
  Modelled from the spec: \<open>Buffer.mergeClusters\<close> is declared outside the files at hand. By
  the spec's cluster rule \<open>mergeClusters(a,b)\<close> sets every cluster value in \<open>[a,b)\<close> to the
  minimum found there, through \<open>setCluster\<close>, which resets the defined flag bits of a glyph
  whose cluster changes.
\<close>

definition minCluster :: "GlyphInfo list \<Rightarrow> nat \<Rightarrow> nat \<Rightarrow> int" where
  "minCluster info a b = foldl (\<lambda>c j. min c (Cluster (info ! j))) (Cluster (info ! a)) [Suc a..<b]"

definition mergeClusters :: "GlyphInfo list \<Rightarrow> nat \<Rightarrow> nat \<Rightarrow> GlyphInfo list" where
  "mergeClusters info a b =
     (if b - a < 2 then info
      else updRange (\<lambda>g. setCluster g (minCluster info a b) 0) a b info)"

text \<open>
  The category bytes \<open>khmSM_ex_H\<close> (Coeng), \<open>khmSM_ex_Ra\<close> and \<open>khmSM_ex_VPre\<close> are constants
  declared outside the files at hand: the reordering takes them as a parameter.
\<close>

record khmerCategories =
  khmSM_ex_H :: "8 word"
  khmSM_ex_Ra :: "8 word"
  khmSM_ex_VPre :: "8 word"

definition khmerPref :: nat where "khmerPref = 0"
definition khmerBlwf :: nat where "khmerBlwf = 1"
definition khmerAbvf :: nat where "khmerAbvf = 2"
definition khmerPstf :: nat where "khmerPstf = 3"
definition khmerCfar :: nat where "khmerCfar = 4"

text \<open>\<open>maskArray\<close> is an array of \<open>khmerNumFeatures = 9\<close> masks.\<close>

record khmerShapePlan =
  viramaGlyph :: GID
  maskArray :: "GlyphMask list"

definition orMask :: "GlyphMask \<Rightarrow> GlyphInfo \<Rightarrow> GlyphInfo" where
  "orMask msk info = info\<lparr>Mask := Mask info OR msk\<rparr>"

text \<open>
  The move of \<open>n\<close> glyphs from index \<open>i\<close> to the syllable start: \<open>t := info[i]\<close> (and
  \<open>info[i+1]\<close>), \<open>copy(info[start+n:], info[start:i])\<close>, \<open>info[start] = t\<close>.
\<close>

definition moveToStart :: "nat \<Rightarrow> 'a list \<Rightarrow> nat \<Rightarrow> nat \<Rightarrow> 'a list" where
  "moveToStart n info start i =
     take start info @ take n (drop i info) @ take (i - start) (drop start info) @
     drop (i + n) info"

text \<open>The body of the reordering loop at index \<open>i\<close>; the state is the glyphs and \<open>numCoengs\<close>.\<close>

definition reorderStep ::
  "khmerCategories \<Rightarrow> khmerShapePlan \<Rightarrow> nat \<Rightarrow> nat \<Rightarrow> GlyphInfo list \<times> int \<Rightarrow> nat \<Rightarrow>
   GlyphInfo list \<times> int" where
  "reorderStep cats plan start end st i =
     (case st of (info, numCoengs) \<Rightarrow>
        if complexCategory (info ! i) = khmSM_ex_H cats \<and> numCoengs \<le> 2 \<and> i + 1 < end
        then
          if complexCategory (info ! (i + 1)) = khmSM_ex_Ra cats
          then
            let info1 = updRange (orMask (maskArray plan ! khmerPref)) i (i + 2) info;
                info2 = mergeClusters info1 start (i + 2);
                info3 = moveToStart 2 info2 start i;
                info4 = (if maskArray plan ! khmerCfar \<noteq> 0
                         then updRange (orMask (maskArray plan ! khmerCfar)) (i + 2) end info3
                         else info3)
            in (info4, 2)
          else (info, numCoengs + 1)
        else if complexCategory (info ! i) = khmSM_ex_VPre cats
        then (moveToStart 1 (mergeClusters info start (i + 1)) start i, numCoengs)
        else (info, numCoengs))"

text \<open>
  \<open>reorderConsonantSyllable\<close>: the post-base masks on the glyphs after the first, then the
  loop. The glyphs \<open>[start, end)\<close> must be in the buffer; an index past the end is a panic.
\<close>

definition reorderLoop ::
  "khmerCategories \<Rightarrow> khmerShapePlan \<Rightarrow> nat \<Rightarrow> nat \<Rightarrow> GlyphInfo list \<times> int \<Rightarrow> nat list \<Rightarrow>
   GlyphInfo list \<times> int" where
  "reorderLoop cats plan start end st is = foldl (reorderStep cats plan start end) st is"

definition postBaseMasks :: "khmerShapePlan \<Rightarrow> nat \<Rightarrow> nat \<Rightarrow> GlyphInfo list \<Rightarrow> GlyphInfo list" where
  "postBaseMasks plan start end info =
     updRange (orMask (maskArray plan ! khmerBlwf OR maskArray plan ! khmerAbvf OR
                       maskArray plan ! khmerPstf)) (start + 1) end info"

definition reorderConsonantSyllable ::
  "khmerCategories \<Rightarrow> khmerShapePlan \<Rightarrow> Buffer \<Rightarrow> nat \<Rightarrow> nat \<Rightarrow> panic + Buffer" where
  "reorderConsonantSyllable cats plan buffer start end =
     (if start + 1 < end \<and> length (Info buffer) < end then Inl IndexOutOfRange
      else Inr (buffer\<lparr>Info :=
             fst (reorderLoop cats plan start end
                    (postBaseMasks plan start end (Info buffer), 0) [start + 1..<end])\<rparr>))"

subsection \<open>The pass in the words of the specification\<close>

text \<open>
  The predicates below say, glyph by glyph, what the specification asks of the pass; they are
  not read off the code, and the theorems compare the code with them. \<open>sameGlyph g h\<close>: \<open>g\<close> and
  \<open>h\<close> are one glyph, up to its cluster and its mask. \<open>tagged m g h\<close>: the mask of \<open>h\<close> is the mask
  of \<open>g\<close> with \<open>m\<close> added, the glyph flags aside (merging clusters may reset them).
\<close>

definition sameGlyph :: "GlyphInfo \<Rightarrow> GlyphInfo \<Rightarrow> bool" where
  "sameGlyph g h = (g\<lparr>Cluster := 0, Mask := 0\<rparr> = h\<lparr>Cluster := 0, Mask := 0\<rparr>)"

definition tagged :: "GlyphMask \<Rightarrow> GlyphInfo \<Rightarrow> GlyphInfo \<Rightarrow> bool" where
  "tagged m g h = (Mask h AND NOT glyphFlagDefined = (Mask g OR m) AND NOT glyphFlagDefined)"

definition movedGlyph :: "GlyphMask \<Rightarrow> GlyphInfo \<Rightarrow> GlyphInfo \<Rightarrow> bool" where
  "movedGlyph m g h = (sameGlyph g h \<and> tagged m g h)"

text \<open>The least cluster value among the glyphs of \<open>[a, b)\<close>.\<close>

definition clusterMin :: "GlyphInfo list \<Rightarrow> nat \<Rightarrow> nat \<Rightarrow> int" where
  "clusterMin info a b = Min ((\<lambda>j. Cluster (info ! j)) ` {a..<b})"

text \<open>
  Before the pass every glyph of the syllable but the first gets the masks of the post-base
  features \<open>blwf\<close>, \<open>abvf\<close> and \<open>pstf\<close>.
\<close>

definition postBaseTagged :: "khmerShapePlan \<Rightarrow> nat \<Rightarrow> nat \<Rightarrow> GlyphInfo list \<Rightarrow> GlyphInfo list \<Rightarrow> bool" where
  "postBaseTagged plan start end info info' =
     (length info' = length info \<and>
      (\<forall>k < length info. info' ! k =
         (if start < k \<and> k < end
          then (info ! k)\<lparr>Mask := Mask (info ! k) OR
                 (maskArray plan ! khmerBlwf OR maskArray plan ! khmerAbvf OR
                  maskArray plan ! khmerPstf)\<rparr>
          else info ! k)))"

text \<open>
  The Coeng at \<open>i\<close> and the Ra after it are moved to the start of the syllable: they stand at
  \<open>start\<close> and \<open>start + 1\<close>, tagged with \<open>pref\<close>; the glyphs that stood in \<open>[start, i)\<close> follow, two
  places to the right; the clusters of \<open>[start, i + 2)\<close> are merged to their minimum; the glyphs
  after the pair, up to the end of the syllable, stay where they are and are tagged with
  \<open>cfar\<close>; the glyphs outside the syllable are left alone.
\<close>

definition pairMoved ::
  "GlyphMask \<Rightarrow> GlyphMask \<Rightarrow> nat \<Rightarrow> nat \<Rightarrow> nat \<Rightarrow> GlyphInfo list \<Rightarrow> GlyphInfo list \<Rightarrow> bool" where
  "pairMoved pref cfar start i end info info' =
     (length info' = length info \<and>
      movedGlyph pref (info ! i) (info' ! start) \<and>
      movedGlyph pref (info ! (i + 1)) (info' ! (start + 1)) \<and>
      (\<forall>k. start \<le> k \<and> k < i \<longrightarrow> movedGlyph 0 (info ! k) (info' ! (k + 2))) \<and>
      (\<forall>k. start \<le> k \<and> k < i + 2 \<longrightarrow> Cluster (info' ! k) = clusterMin info start (i + 2)) \<and>
      (\<forall>k. i + 2 \<le> k \<and> k < end \<longrightarrow> info' ! k = (info ! k)\<lparr>Mask := Mask (info ! k) OR cfar\<rparr>) \<and>
      (\<forall>k. k < length info \<and> (k < start \<or> end \<le> k) \<longrightarrow> info' ! k = info ! k))"

text \<open>
  The left matra at \<open>i\<close> is moved to the start of the syllable: it stands at \<open>start\<close>; the glyphs
  that stood in \<open>[start, i)\<close> follow, one place to the right; the clusters of \<open>[start, i + 1)\<close> are
  merged to their minimum; the other glyphs are left alone.
\<close>

definition matraMoved :: "nat \<Rightarrow> nat \<Rightarrow> GlyphInfo list \<Rightarrow> GlyphInfo list \<Rightarrow> bool" where
  "matraMoved start i info info' =
     (length info' = length info \<and>
      movedGlyph 0 (info ! i) (info' ! start) \<and>
      (\<forall>k. start \<le> k \<and> k < i \<longrightarrow> movedGlyph 0 (info ! k) (info' ! (k + 1))) \<and>
      (\<forall>k. start \<le> k \<and> k < i + 1 \<longrightarrow> Cluster (info' ! k) = clusterMin info start (i + 1)) \<and>
      (\<forall>k. k < length info \<and> (k < start \<or> i + 1 \<le> k) \<longrightarrow> info' ! k = info ! k))"

text \<open>
  One step of the scan, at index \<open>i\<close>, from the glyphs \<open>info\<close> and the count \<open>nc\<close> of Coengs met so
  far to the glyphs \<open>info'\<close> and the count \<open>nc'\<close>: a Coeng that has a glyph after it in the syllable
  counts while the count is at most two, and if Ra follows it the pair is moved and the count
  set to two; a left matra is moved; any other glyph is passed over.
\<close>

definition passStep ::
  "khmerCategories \<Rightarrow> khmerShapePlan \<Rightarrow> nat \<Rightarrow> nat \<Rightarrow> nat \<Rightarrow>
   GlyphInfo list \<times> int \<Rightarrow> GlyphInfo list \<times> int \<Rightarrow> bool" where
  "passStep cats plan start end i st st' =
     (case (st, st') of ((info, nc), (info', nc')) \<Rightarrow>
        if complexCategory (info ! i) = khmSM_ex_H cats \<and> nc \<le> 2 \<and> i + 1 < end
        then if complexCategory (info ! (i + 1)) = khmSM_ex_Ra cats
             then pairMoved (maskArray plan ! khmerPref) (maskArray plan ! khmerCfar)
                    start i end info info' \<and> nc' = 2
             else info' = info \<and> nc' = nc + 1
        else if complexCategory (info ! i) = khmSM_ex_VPre cats
             then matraMoved start i info info' \<and> nc' = nc
             else info' = info \<and> nc' = nc)"

text \<open>The glyph at \<open>k\<close> starts no reordering: it is no left matra and no Coeng followed by Ra.\<close>

definition noTrigger :: "khmerCategories \<Rightarrow> nat \<Rightarrow> GlyphInfo list \<Rightarrow> nat \<Rightarrow> bool" where
  "noTrigger cats end info k =
     (complexCategory (info ! k) \<noteq> khmSM_ex_VPre cats \<and>
      \<not> (complexCategory (info ! k) = khmSM_ex_H cats \<and> k + 1 < end \<and>
         complexCategory (info ! (k + 1)) = khmSM_ex_Ra cats))"

section \<open>Attaching a mark (ot\_layout\_gpos.go)\<close>

text \<open>
  \<open>applyGPOSMarks\<close> positions the current glyph, a mark, on the glyph at \<open>glyphPos\<close>. The tables
  package, the font and the buffer methods are declared outside the files at hand, so the
  function takes as parameters what it calls there: \<open>unsafeToBreak\<close> (a method of the buffer),
  \<open>getAnchor\<close> (the anchor of a glyph in font units scaled by the font, which panics on a nil
  anchor), the subtraction of two \<open>float32\<close> and \<open>roundf\<close>. The type \<open>'f\<close> stands for \<open>float32\<close> and
  \<open>'a\<close> for \<open>tables.Anchor\<close>; an anchor matrix is its method \<open>Anchor(index, class)\<close>, with \<open>None\<close>
  for nil. Of a mark record only the class is read.

  \<open>buffer.cur(0)\<close> and \<open>buffer.curPos(0)\<close> are the glyph and the position at \<open>buffer.idx\<close>; the
  conversion \<open>int16(\<dots>)\<close> of an \<open>int\<close> keeps its low 16 bits.
\<close>

definition attachTypeMark :: "8 word" where
  "attachTypeMark = 0x01"

record 'a MarkArray =
  MarkRecords :: "16 word list"
  MarkAnchors :: "'a list"

type_synonym 'a AnchorMatrix = "int \<Rightarrow> int \<Rightarrow> 'a option"

definition attachMark :: "GlyphPosition \<Rightarrow> Position \<Rightarrow> Position \<Rightarrow> int \<Rightarrow> GlyphPosition" where
  "attachMark cur x y distance =
     cur\<lparr>XOffset := x, YOffset := y, attachType := attachTypeMark,
       attachChain := word_of_int distance\<rparr>"

definition applyGPOSMarks ::
  "(Buffer \<Rightarrow> int \<Rightarrow> int \<Rightarrow> Buffer) \<Rightarrow> ('a \<Rightarrow> GID \<Rightarrow> panic + 'f \<times> 'f) \<Rightarrow> ('f \<Rightarrow> 'f \<Rightarrow> 'f) \<Rightarrow>
   ('f \<Rightarrow> Position) \<Rightarrow> otApplyContext \<Rightarrow> 'a MarkArray \<Rightarrow> int \<Rightarrow> int \<Rightarrow> 'a AnchorMatrix \<Rightarrow> int \<Rightarrow>
   panic + bool \<times> otApplyContext" where
  "applyGPOSMarks unsafeToBreak getAnchor fsub roundf c marks markIndex glyphIndex anchors glyphPos =
     (if markIndex < 0 \<or> int (length (MarkRecords marks)) \<le> markIndex then Inl IndexOutOfRange
      else if int (length (MarkAnchors marks)) \<le> markIndex then Inl IndexOutOfRange
      else
        let markClass = MarkRecords marks ! nat markIndex;
            markAnchor = MarkAnchors marks ! nat markIndex
        in case anchors glyphIndex (uint markClass) of
             None \<Rightarrow> Inr (False, c)
           | Some glyphAnchor \<Rightarrow>
               let buffer = unsafeToBreak (ctxBuffer c) glyphPos (idx (ctxBuffer c) + 1) in
               if idx buffer < 0 \<or> int (length (Info buffer)) \<le> idx buffer
               then Inl IndexOutOfRange
               else case getAnchor markAnchor (Glyph (Info buffer ! nat (idx buffer))) of
                 Inl p \<Rightarrow> Inl p
               | Inr (markX, markY) \<Rightarrow>
                   if glyphPos < 0 \<or> int (length (Info buffer)) \<le> glyphPos
                   then Inl IndexOutOfRange
                   else case getAnchor glyphAnchor (Glyph (Info buffer ! nat glyphPos)) of
                     Inl p \<Rightarrow> Inl p
                   | Inr (baseX, baseY) \<Rightarrow>
                       if int (length (Pos buffer)) \<le> idx buffer then Inl IndexOutOfRange
                       else
                         let cur = attachMark (Pos buffer ! nat (idx buffer))
                                   (roundf (fsub baseX markX)) (roundf (fsub baseY markY))
                                   (glyphPos - idx buffer)
                         in Inr (True, c\<lparr>ctxBuffer := buffer
                               \<lparr>Pos := (Pos buffer)[nat (idx buffer) := cur],
                                scratchFlags := insert bsfHasGPOSAttachment (scratchFlags buffer),
                                idx := idx buffer + 1\<rparr>\<rparr>))"

section \<open>Concrete inputs\<close>

text \<open>A glyph with a given cluster and mask, and a buffer around a glyph sequence.\<close>

definition glyphOf :: "int \<Rightarrow> GlyphMask \<Rightarrow> GlyphInfo" where
  "glyphOf cluster msk =
     \<lparr>Cluster = cluster, codepoint = 0, Glyph = 0, Mask = msk, glyphProps = 0, ligProps = 0,
      syllable = 0, unicode = 0, complexCategory = 0, complexAux = 0\<rparr>"

definition bufferOf :: "GlyphInfo list \<Rightarrow> ShappingOptions set \<Rightarrow> bufferScratchFlags set \<Rightarrow> Buffer" where
  "bufferOf infos opts scratch =
     \<lparr>Info = infos, Pos = [], idx = 0, Invisible = 0, Flags = opts, scratchFlags = scratch,
      maxOps = 16384, maxLen = 16384\<rparr>"

text \<open>The zero value of an apply context around a buffer, and the context after \<open>reset\<close>.\<close>

definition zeroContext :: "Buffer \<Rightarrow> otApplyContext" where
  "zeroContext buffer =
     \<lparr>ctxBuffer = buffer, indices = [], digest = (0, 0, 0), nestingLevelLeft = 0, tableIndex = 0,
      lookupMask = 0, lookupProps = 0, randomState = 0, lookupIndex = 0, hasGlyphClasses = False,
      autoZWNJ = False, autoZWJ = False, perSyllable = False, newSyllables = 0, random = False,
      lastBase = 0, lastBaseUntil = 0\<rparr>"

definition freshContext :: "Buffer \<Rightarrow> otApplyContext" where
  "freshContext buffer = reset (\<lambda>b. (1, 1, 1)) False (zeroContext buffer) 0 buffer"

text \<open>
  A lookup to apply: any mask and flags, accelerator \<open>n\<close>. And an \<open>applyString\<close> that
  replaces the buffer's glyphs by 16385 glyphs, as a multiple substitution with a long
  sequence does.
\<close>

definition lookupOf :: "16 word \<Rightarrow> lookupMap" where
  "lookupOf n =
     \<lparr>lm_index = n, lm_autoZWNJ = True, lm_autoZWJ = True, lm_random = False,
      lm_perSyllable = False, lm_featureTag = 0, lm_mask = 1\<rparr>"

definition growString :: applyStringFunc where
  "growString c n = c\<lparr>ctxBuffer := (ctxBuffer c)\<lparr>Info := replicate 16385 (glyphOf 0 0)\<rparr>\<rparr>"

text \<open>
  An empty builder, and the tags \<open>liga\<close> and \<open>salt\<close> (\<open>ot.NewTag\<close> packs the four bytes,
  the first in the top byte).
\<close>

definition emptyBuilder :: otMapBuilder where
  "emptyBuilder = \<lparr>featureInfos = [], currentStage = (0, 0)\<rparr>"

definition tagLiga :: Tag where
  "tagLiga = 0x6C696761"

definition tagSalt :: Tag where
  "tagSalt = 0x73616C74"

text \<open>A font in which every feature is found, at index 0, under the chosen script and language.\<close>

definition fontWithAll :: layoutTables where
  "fontWithAll =
     \<lparr>requiredFeatureTag = (0, 0), findFeatureForLang = (\<lambda>table tag. 0),
      findFeature = (\<lambda>table tag. NoFeatureIndex)\<rparr>"

text \<open>
  Khmer syllables: category values for Coeng, Ra and the left matra, a plan with one bit per
  feature, and the glyph sequences of a base followed by Coeng and Ro, of a base followed by a
  left matra, of a base followed by Coeng, Ro and a left matra, and of a base followed by Coeng
  and another consonant.
\<close>

definition khmerCats :: khmerCategories where
  "khmerCats = \<lparr>khmSM_ex_H = 4, khmSM_ex_Ra = 15, khmSM_ex_VPre = 22\<rparr>"

definition khmerPlan :: khmerShapePlan where
  "khmerPlan = \<lparr>viramaGlyph = 0,
     maskArray = [0x100, 0x200, 0x400, 0x800, 0x1000, 0, 0, 0, 0]\<rparr>"

definition khmerGlyph :: "GID \<Rightarrow> 8 word \<Rightarrow> int \<Rightarrow> GlyphInfo" where
  "khmerGlyph g cat cluster = (glyphOf cluster 0)\<lparr>Glyph := g, complexCategory := cat\<rparr>"

definition khmerKaCoengRo :: "GlyphInfo list" where
  "khmerKaCoengRo = [khmerGlyph 10 1 0, khmerGlyph 11 4 1, khmerGlyph 12 15 2]"

definition khmerKaE :: "GlyphInfo list" where
  "khmerKaE = [khmerGlyph 10 1 0, khmerGlyph 13 22 1]"

definition khmerKaCoengRoE :: "GlyphInfo list" where
  "khmerKaCoengRoE = [khmerGlyph 10 1 0, khmerGlyph 11 4 1, khmerGlyph 12 15 2, khmerGlyph 13 22 3]"

definition khmerKaCoengKha :: "GlyphInfo list" where
  "khmerKaCoengKha = [khmerGlyph 10 1 0, khmerGlyph 11 4 1, khmerGlyph 14 1 2]"

text \<open>
  Mark attachment: anchors given in font units with an identity scaling, a buffer method
  \<open>unsafeToBreak\<close> that flags the glyphs of the range, a base glyph followed by one mark (Thai
  U+0E01 U+0E35), and a base glyph followed by 40000 marks.
\<close>

definition zeroPosition :: GlyphPosition where
  "zeroPosition = \<lparr>XAdvance = 0, XOffset = 0, YAdvance = 0, YOffset = 0,
                    attachChain = 0, attachType = 0\<rparr>"

definition flagRange :: "Buffer \<Rightarrow> int \<Rightarrow> int \<Rightarrow> Buffer" where
  "flagRange b s e =
     b\<lparr>Info := map (\<lambda>(i, g). if s \<le> int i \<and> int i < e
                              then g\<lparr>Mask := Mask g OR GlyphUnsafeToBreak OR GlyphUnsafeToConcat\<rparr>
                              else g) (enumerate 0 (Info b)),
       scratchFlags := insert bsfHasGlyphFlags (scratchFlags b)\<rparr>"

definition unitAnchor :: "int \<times> int \<Rightarrow> GID \<Rightarrow> panic + int \<times> int" where
  "unitAnchor a g = Inr a"

definition roundUnits :: "int \<Rightarrow> Position" where
  "roundUnits x = word_of_int x"

definition thaiMarks :: "(int \<times> int) MarkArray" where
  "thaiMarks = \<lparr>MarkRecords = [0], MarkAnchors = [(-20, 450)]\<rparr>"

definition thaiBases :: "(int \<times> int) AnchorMatrix" where
  "thaiBases i cls = (if i = 0 \<and> cls = 0 then Some (300, 500) else None)"

definition markRun :: "nat \<Rightarrow> otApplyContext" where
  "markRun n =
     zeroContext ((bufferOf (replicate (Suc n) (glyphOf 0 0)) {} {})
                    \<lparr>Pos := replicate (Suc n) zeroPosition, idx := int n\<rparr>)"

chapter \<open>Properties\<close>

section \<open>The set digest has no false negatives\<close>

lemma bitIndex_lt: "bitIndex g shift < 32"
  by (simp add: bitIndex_def)

lemma maskFor_eq: "maskFor g shift = 2 ^ bitIndex g shift"
proof -
  have "(of_nat (maskBits - 1) :: 'a word) = mask 5"
    by (simp add: maskBits_def mask_eq_exp_minus_1)
  then have "drop_bit shift g AND of_nat (maskBits - 1) = take_bit 5 (drop_bit shift g)"
    by (simp only: take_bit_eq_mask)
  then have "unat (drop_bit shift g AND of_nat (maskBits - 1)) = take_bit 5 (drop_bit shift (unat g))"
    by (simp only: unsigned_take_bit_eq unat_drop_bit_eq)
  also have "\<dots> = bitIndex g shift"
    by (simp add: bitIndex_def drop_bit_eq_div take_bit_eq_mod)
  finally show ?thesis
    by (simp add: maskFor_def push_bit_eq_mult)
qed

lemma mayHave_iff: "setBits_mayHave sd g shift \<longleftrightarrow> bit sd (bitIndex g shift)"
  by (simp add: setBits_mayHave_def maskFor_eq and_exp_eq_0_iff_not_bit)

lemma add_mayHave: "setBits_mayHave (setBits_add sd g shift) g shift"
  by (simp add: mayHave_iff setBits_add_def maskFor_eq bit_or_iff bit_exp_iff bitIndex_lt)

lemma add_mono: "setBits_mayHave sd g shift \<Longrightarrow> setBits_mayHave (setBits_add sd h shift) g shift"
  by (simp add: mayHave_iff setBits_add_def bit_or_iff)

lemma addArray_mono:
  "setBits_mayHave sd g shift \<Longrightarrow> setBits_mayHave (setBits_addArray sd arr shift) g shift"
  by (induction arr arbitrary: sd) (simp_all add: add_mono)

lemma addArray_mayHave:
  "g \<in> set arr \<Longrightarrow> setBits_mayHave (setBits_addArray sd arr shift) g shift"
  by (induction arr arbitrary: sd) (auto simp: add_mayHave addArray_mono)

lemma span_mask:
  assumes "ia \<le> ib"
  shows "(2 ^ ib + (2 ^ ib - 2 ^ ia) :: 32 word) = push_bit ia (mask (Suc ib - ia))"
proof -
  from assms have "(2::32 word) ^ (Suc ib - ia) * 2 ^ ia = 2 ^ Suc ib"
    by (simp flip: power_add)
  then show ?thesis
    by (simp add: push_bit_eq_mult mask_eq_exp_minus_1 algebra_simps)
qed

lemma wrap_mask:
  assumes lt: "ib < ia"
  shows "(2 ^ ib + (2 ^ ib - 2 ^ ia) - 1 :: 32 word) = mask (Suc ib) OR NOT (mask ia)"
proof -
  have "NOT (mask ia) = - (2 ^ ia :: 32 word)"
    by (simp only: minus_exp_eq_not_mask)
  moreover have "mask (Suc ib) = (2 * 2 ^ ib - 1 :: 32 word)"
    by (simp add: mask_eq_exp_minus_1)
  ultimately have "(2 ^ ib + (2 ^ ib - 2 ^ ia) - 1 :: 32 word) = mask (Suc ib) + NOT (mask ia)"
    by simp
  also have "\<dots> = mask (Suc ib) OR NOT (mask ia)"
    by (rule disjunctive_add) (use lt in \<open>auto simp: bit_mask_iff bit_not_iff\<close>)
  finally show ?thesis .
qed

lemma unat_pow2:
  assumes n: "n < 32"
  shows "unat (2 ^ n :: 32 word) = 2 ^ n"
proof -
  have "(2 ^ n :: 32 word) = of_nat (2 ^ n)" by simp
  then have "unat (2 ^ n :: 32 word) = 2 ^ n mod 2 ^ 32"
    by (simp only: unat_of_nat) simp
  also have "\<dots> = 2 ^ n"
  proof -
    have "(2::nat) ^ n < 2 ^ 32" using n by (intro power_strict_increasing) simp_all
    then show ?thesis by (rule mod_less)
  qed
  finally show ?thesis .
qed

lemma pow_less_iff: "ia < 32 \<Longrightarrow> ib < 32 \<Longrightarrow> ((2 ^ ib :: 32 word) < 2 ^ ia) = (ib < ia)"
  by (simp add: word_less_nat_alt unat_pow2)

lemma bit_span: "i < 32 \<Longrightarrow> ia \<le> i \<Longrightarrow> i \<le> ib \<Longrightarrow> bit (push_bit ia (mask (Suc ib - ia)) :: 32 word) i"
  by (auto simp: bit_push_bit_iff bit_mask_iff)

lemma bit_wrap: "i < 32 \<Longrightarrow> i \<le> ib \<or> ia \<le> i \<Longrightarrow> bit (mask (Suc ib) OR NOT (mask ia) :: 32 word) i"
  by (auto simp: bit_or_iff bit_not_iff bit_mask_iff)

lemma mod32_small: "n < 64 \<Longrightarrow> n mod 32 = (if n < 32 then n else n - (32::nat))"
  by (simp add: le_mod_geq)

lemma addRange_mayHave:
  fixes a g b :: "'a::len word"
  assumes ag: "a \<le> g" and gb: "g \<le> b"
  shows "setBits_mayHave (setBits_addRange sd a b shift) g shift"
proof (cases "drop_bit shift b - drop_bit shift a \<ge> (of_nat (maskBits - 1) :: 'a word)")
  case True
  then show ?thesis
    by (simp add: mayHave_iff setBits_addRange_def bit_not_iff bitIndex_lt)
next
  case False
  define A where "A = unat a div 2 ^ shift"
  define X where "X = unat g div 2 ^ shift"
  define B where "B = unat b div 2 ^ shift"
  have AX: "A \<le> X" and XB: "X \<le> B"
    using ag gb by (simp_all add: A_def X_def B_def word_le_nat_alt div_le_mono)
  have ua: "unat (drop_bit shift a) = A" and ub: "unat (drop_bit shift b) = B"
    unfolding A_def B_def unat_drop_bit_eq by (simp_all only: drop_bit_eq_div)
  have le: "drop_bit shift a \<le> drop_bit shift b"
    using AX XB by (simp add: word_le_nat_alt ua ub)
  have "unat (drop_bit shift b - drop_bit shift a) = B - A"
    using le by (simp add: unat_sub ua ub)
  moreover have "unat (of_nat (maskBits - 1) :: 'a word) \<le> 31"
    by (simp add: maskBits_def unat_of_nat)
  ultimately have small: "B - A < 31"
    using False by (simp add: word_le_nat_alt not_le)
  define ia where "ia = bitIndex a shift"
  define ib where "ib = bitIndex b shift"
  define i where "i = bitIndex g shift"
  define d where "d = X - A"
  define e where "e = B - X"
  have X: "X = A + d" and B: "B = A + (d + e)" and de: "d + e < 31"
    using AX XB small by (simp_all add: d_def e_def)
  have ia: "ia = A mod 32"
    by (simp add: ia_def bitIndex_def A_def)
  have i: "i = (ia + d) mod 32"
    unfolding ia by (simp add: i_def bitIndex_def X [unfolded X_def] mod_add_left_eq)
  have ib: "ib = (ia + (d + e)) mod 32"
    unfolding ia by (simp add: ib_def bitIndex_def B [unfolded B_def] mod_add_left_eq)
  have bounds: "ia < 32" "ib < 32" "i < 32"
    by (simp_all add: ia i ib)
  have i': "i = (if ia + d < 32 then ia + d else ia + d - 32)"
    unfolding i using bounds(1) de by (intro mod32_small) simp
  have ib': "ib = (if ia + (d + e) < 32 then ia + (d + e) else ia + (d + e) - 32)"
    unfolding ib using bounds(1) de by (intro mod32_small) simp
  have mf: "maskFor a shift = 2 ^ ia" "maskFor b shift = 2 ^ ib"
    by (simp_all add: maskFor_eq ia_def ib_def)
  have unfolded: "setBits_addRange sd a b shift =
      sd OR (2 ^ ib + (2 ^ ib - 2 ^ ia) - (if ib < ia then 1 else 0))"
    using False pow_less_iff [OF bounds(1) bounds(2)]
    by (simp only: setBits_addRange_def mf Let_def if_False)
  show ?thesis
  proof (cases "ib < ia")
    case True
    have "i \<le> ib \<or> ia \<le> i"
      using True de i' ib' by (auto split: if_splits)
    then have "bit (mask (Suc ib) OR NOT (mask ia) :: 32 word) i"
      using bounds by (intro bit_wrap)
    moreover have "setBits_addRange sd a b shift = sd OR (mask (Suc ib) OR NOT (mask ia))"
      unfolding unfolded using True by (simp only: if_True wrap_mask)
    ultimately show ?thesis
      by (simp add: mayHave_iff bit_or_iff flip: i_def)
  next
    case nlt: False
    have "ia \<le> i \<and> i \<le> ib"
      using nlt de i' ib' by (auto split: if_splits)
    then have "bit (push_bit ia (mask (Suc ib - ia)) :: 32 word) i"
      using bounds by (intro bit_span) simp_all
    moreover have "setBits_addRange sd a b shift = sd OR push_bit ia (mask (Suc ib - ia))"
    proof -
      have "ia \<le> ib" using nlt by simp
      then show ?thesis
        unfolding unfolded by (simp only: nlt if_False diff_zero span_mask)
    qed
    ultimately show ?thesis
      by (simp add: mayHave_iff bit_or_iff flip: i_def)
  qed
qed

lemma addRange_mono:
  "setBits_mayHave sd g shift \<Longrightarrow> setBits_mayHave (setBits_addRange sd a b shift) g shift"
  by (simp add: mayHave_iff setBits_addRange_def bit_or_iff bit_not_iff bitIndex_lt Let_def)


lemma applyOp_inserts: "inserts op g \<Longrightarrow> setDigest_mayHave (applyOp sd op) g"
  by (cases sd; cases op) (simp_all add: add_mayHave addArray_mayHave addRange_mayHave)

lemma applyOp_mono: "setDigest_mayHave sd g \<Longrightarrow> setDigest_mayHave (applyOp sd op) g"
  by (cases sd; cases op) (simp_all add: add_mono addArray_mono addRange_mono)

lemma foldl_applyOp_mono:
  "setDigest_mayHave sd g \<Longrightarrow> setDigest_mayHave (foldl applyOp sd ops) g"
  by (induction ops arbitrary: sd) (simp_all add: applyOp_mono)

text \<open>
  Claim C6. Whatever sequence of \<open>add\<close>, \<open>addArray\<close> and \<open>addRange\<close> calls builds a
  digest (from any starting digest), a glyph inserted by one of the calls (for \<open>addRange\<close>:
  any glyph of the inclusive range) is reported by \<open>mayHave\<close> afterwards: each of the three
  filter words, built with the shifts 4, 0 and 9, has the glyph's bit set.
\<close>

theorem setDigest_no_false_negatives:
  "op \<in> set ops \<Longrightarrow> inserts op g \<Longrightarrow> setDigest_mayHave (foldl applyOp sd ops) g"
proof (induction ops arbitrary: sd)
  case Nil
  then show ?case by simp
next
  case (Cons x ops)
  show ?case
  proof (cases "op = x")
    case True
    with Cons.prems have "setDigest_mayHave (applyOp sd x) g"
      by (simp add: applyOp_inserts)
    then show ?thesis by (simp add: foldl_applyOp_mono)
  next
    case False
    with Cons.prems have "op \<in> set ops" by simp
    then show ?thesis using Cons.IH Cons.prems(2) by simp
  qed
qed

theorem setDigest_no_false_negatives_witness:
  "AddRange 10 20 \<in> set [AddRange (10::16 word) 20, Add 7] \<and>
   inserts (AddRange (10::16 word) 20) 15 \<and>
   setDigest_mayHave (foldl applyOp (0, 0, 0) [AddRange (10::16 word) 20, Add 7]) (15::16 word)"
  using setDigest_no_false_negatives [of "AddRange (10::16 word) 20" "[AddRange (10::16 word) 20, Add 7]" "15::16 word" "(0, 0, 0)"]
  by simp

section \<open>Flag propagation\<close>

lemma brk_iff: "(m AND GlyphUnsafeToBreak \<noteq> 0) = bit m 0"
  using and_exp_eq_0_iff_not_bit [of m 0] by (simp add: GlyphUnsafeToBreak_def)

lemma cat_iff: "(m AND GlyphUnsafeToConcat \<noteq> 0) = bit m 1"
  using and_exp_eq_0_iff_not_bit [of m 1] by (simp add: GlyphUnsafeToConcat_def)

lemma twl_iff: "(m AND GlyphSafeToInsertTatweel \<noteq> 0) = bit m 2"
  using and_exp_eq_0_iff_not_bit [of m 2] by (simp add: GlyphSafeToInsertTatweel_def)

lemma bit_brk: "bit GlyphUnsafeToBreak k = (k = 0)"
  by (auto simp: GlyphUnsafeToBreak_def bit_1_iff)

lemma bit_cat: "bit GlyphUnsafeToConcat k = (k = 1)"
  using bit_exp_iff [where ?'a = "32 word", of 1 k] by (auto simp: GlyphUnsafeToConcat_def)

lemma bit_twl: "bit GlyphSafeToInsertTatweel k = (k = 2)"
  using bit_exp_iff [where ?'a = "32 word", of 2 k] by (auto simp: GlyphSafeToInsertTatweel_def)

lemma bit_defined: "bit glyphFlagDefined k = (k < 3)"
  by (auto simp: glyphFlagDefined_def bit_or_iff bit_brk bit_cat bit_twl)

lemma bit_flipTatweelMask:
  "bit (flipTatweelMask m) k =
     (if k = 0 then bit m 0 \<or> bit m 2
      else if k = 1 then bit m 1 \<or> (\<not> bit m 0 \<and> bit m 2)
      else if k = 2 then \<not> bit m 0 \<and> bit m 2
      else bit m k)"
  by (auto simp: flipTatweelMask_def Let_def brk_iff twl_iff bit_and_iff bit_or_iff bit_not_iff
      bit_brk bit_cat bit_twl dest: bit_imp_possible_bit)

lemma bit_adjustMask:
  "bit (adjustMask f c m) k =
     (if k = 1 then \<not> c \<and> bit (if f then flipTatweelMask m else m) 1
      else bit (if f then flipTatweelMask m else m) k)"
  by (auto simp: adjustMask_def Let_def bit_and_iff bit_not_iff bit_cat dest: bit_imp_possible_bit)

lemma bit_clusterMask_aux:
  "bit (foldl (\<lambda>msk i. msk OR (Mask (info ! i) AND glyphFlagDefined)) acc xs) k =
     (bit acc k \<or> (\<exists>i\<in>set xs. bit (Mask (info ! i)) k \<and> k < 3))"
  by (induction xs arbitrary: acc) (auto simp: bit_or_iff bit_and_iff bit_defined)

lemma bit_clusterMask:
  "bit (clusterMask info s e) k = (k < 3 \<and> (\<exists>i. s \<le> i \<and> i < e \<and> bit (Mask (info ! i)) k))"
  by (auto simp: clusterMask_def bit_clusterMask_aux)

lemma clusterMask_cong:
  "(\<And>i. s \<le> i \<Longrightarrow> i < e \<Longrightarrow> Mask (info' ! i) = Mask (info ! i)) \<Longrightarrow>
   clusterMask info' s e = clusterMask info s e"
  by (rule bit_eqI) (auto simp: bit_clusterMask)

lemma length_setMaskRange_aux:
  "length (foldl (\<lambda>xs i. xs[i := (xs ! i)\<lparr>Mask := m\<rparr>]) info is) = length info"
  by (induction "is" arbitrary: info) simp_all

lemma length_setMaskRange [simp]: "length (setMaskRange info s e m) = length info"
  by (simp add: setMaskRange_def length_setMaskRange_aux)

lemma nth_setMaskRange_aux:
  "i < length info \<Longrightarrow>
   foldl (\<lambda>xs i. xs[i := (xs ! i)\<lparr>Mask := m\<rparr>]) info is ! i =
     (if i \<in> set is then (info ! i)\<lparr>Mask := m\<rparr> else info ! i)"
proof (induction "is" arbitrary: info)
  case Nil
  then show ?case by simp
next
  case (Cons j js)
  let ?info = "info[j := (info ! j)\<lparr>Mask := m\<rparr>]"
  have "i < length ?info" using Cons.prems by simp
  from Cons.IH [OF this] show ?case
    using Cons.prems by (cases "i = j") (simp_all add: nth_list_update)
qed

lemma nth_setMaskRange:
  "i < length info \<Longrightarrow>
   setMaskRange info s e m ! i = (if s \<le> i \<and> i < e then (info ! i)\<lparr>Mask := m\<rparr> else info ! i)"
  by (simp add: setMaskRange_def nth_setMaskRange_aux)


lemma length_take_drop_While:
  "length (takeWhile P xs) + length (dropWhile P xs) = length xs"
  by (induction xs) simp_all

lemma clusterRanges_bounds:
  "(s, e) \<in> set (clusterRangesFrom start xs) \<Longrightarrow> start \<le> s \<and> s < e \<and> e \<le> start + length xs"
proof (induction start xs rule: clusterRangesFrom.induct)
  case (1 start)
  then show ?case by simp
next
  case (2 start g rest)
  let ?P = "\<lambda>h. Cluster h = Cluster g"
  let ?n = "length (takeWhile ?P rest)"
  have len: "?n + length (dropWhile ?P rest) = length rest"
    by (rule length_take_drop_While)
  from "2.prems" consider "s = start \<and> e = Suc start + ?n"
    | "(s, e) \<in> set (clusterRangesFrom (Suc start + ?n) (dropWhile ?P rest))"
    by (auto simp: Let_def)
  then show ?case
  proof cases
    case 1
    then show ?thesis using len by simp
  next
    case 2
    from "2.IH" [OF refl this] show ?thesis using len by simp
  qed
qed

lemma clusterRanges_sorted:
  "sorted_wrt (\<lambda>r r'. snd r \<le> fst r') (clusterRangesFrom start xs)"
proof (induction start xs rule: clusterRangesFrom.induct)
  case (1 start)
  then show ?case by simp
next
  case (2 start g rest)
  then show ?case
    by (auto simp: Let_def dest: clusterRanges_bounds)
qed

lemma clusterRanges_cover:
  "i < length xs \<Longrightarrow> \<exists>(s, e) \<in> set (clusterRangesFrom start xs). s \<le> start + i \<and> start + i < e"
proof (induction start xs arbitrary: i rule: clusterRangesFrom.induct)
  case (1 start)
  then show ?case by simp
next
  case (2 start g rest)
  let ?P = "\<lambda>h. Cluster h = Cluster g"
  let ?n = "length (takeWhile ?P rest)"
  have len: "?n + length (dropWhile ?P rest) = length rest"
    by (rule length_take_drop_While)
  show ?case
  proof (cases "i < Suc ?n")
    case True
    then show ?thesis by (simp add: Let_def)
  next
    case False
    then have "i - Suc ?n < length (dropWhile ?P rest)"
      using "2.prems" len by simp
    from "2.IH" [OF refl this] False show ?thesis
      by (auto simp: Let_def)
  qed
qed

lemma foldl_propagateCluster:
  assumes "sorted_wrt (\<lambda>r r'. snd r \<le> fst r') rs"
    and "\<forall>r\<in>set rs. snd r \<le> length info"
  shows "length (foldl (propagateCluster f c) info rs) = length info \<and>
    (\<forall>i < length info. (\<forall>r\<in>set rs. \<not> (fst r \<le> i \<and> i < snd r)) \<longrightarrow>
        foldl (propagateCluster f c) info rs ! i = info ! i) \<and>
    (\<forall>r\<in>set rs. \<forall>i. fst r \<le> i \<and> i < snd r \<longrightarrow>
        foldl (propagateCluster f c) info rs ! i =
          (info ! i)\<lparr>Mask := adjustMask f c (clusterMask info (fst r) (snd r))\<rparr>)"
  using assms
proof (induction rs arbitrary: info)
  case Nil
  then show ?case by simp
next
  case (Cons r rs)
  obtain s e where r: "r = (s, e)" by (cases r)
  define info' where "info' = propagateCluster f c info r"
  have len': "length info' = length info"
    by (simp add: info'_def propagateCluster_def r)
  have nth': "\<And>i. i < length info \<Longrightarrow> info' ! i =
      (if s \<le> i \<and> i < e then (info ! i)\<lparr>Mask := adjustMask f c (clusterMask info s e)\<rparr> else info ! i)"
    by (simp add: info'_def propagateCluster_def r nth_setMaskRange)
  have e_le: "e \<le> length info" using Cons.prems(2) r by simp
  have later: "\<And>r'. r' \<in> set rs \<Longrightarrow> e \<le> fst r'"
    using Cons.prems(1) r by auto
  have IH: "length (foldl (propagateCluster f c) info' rs) = length info' \<and>
    (\<forall>i < length info'. (\<forall>r\<in>set rs. \<not> (fst r \<le> i \<and> i < snd r)) \<longrightarrow>
        foldl (propagateCluster f c) info' rs ! i = info' ! i) \<and>
    (\<forall>r\<in>set rs. \<forall>i. fst r \<le> i \<and> i < snd r \<longrightarrow>
        foldl (propagateCluster f c) info' rs ! i =
          (info' ! i)\<lparr>Mask := adjustMask f c (clusterMask info' (fst r) (snd r))\<rparr>)"
    using Cons.prems by (intro Cons.IH) (simp_all add: len')
  have fold: "foldl (propagateCluster f c) info (r # rs) = foldl (propagateCluster f c) info' rs"
    by (simp add: info'_def)
  have same: "clusterMask info' (fst r') (snd r') = clusterMask info (fst r') (snd r')"
    if "r' \<in> set rs" for r'
  proof (rule clusterMask_cong)
    fix i assume i: "fst r' \<le> i" "i < snd r'"
    have "snd r' \<le> length info" using Cons.prems(2) that by simp
    with i have "i < length info" by simp
    moreover have "e \<le> i" using later [OF that] i by simp
    ultimately show "Mask (info' ! i) = Mask (info ! i)" by (simp add: nth')
  qed
  show ?case
  proof (intro conjI allI impI ballI)
    show "length (foldl (propagateCluster f c) info (r # rs)) = length info"
      unfolding fold using IH by (simp add: len')
  next
    fix i assume i: "i < length info"
      and out: "\<forall>r'\<in>set (r # rs). \<not> (fst r' \<le> i \<and> i < snd r')"
    then have "foldl (propagateCluster f c) info' rs ! i = info' ! i"
      using IH by (simp add: len')
    moreover have "info' ! i = info ! i" using out i r by (auto simp: nth')
    ultimately show "foldl (propagateCluster f c) info (r # rs) ! i = info ! i"
      unfolding fold by simp
  next
    fix r' i assume r': "r' \<in> set (r # rs)" and i: "fst r' \<le> i \<and> i < snd r'"
    show "foldl (propagateCluster f c) info (r # rs) ! i =
        (info ! i)\<lparr>Mask := adjustMask f c (clusterMask info (fst r') (snd r'))\<rparr>"
    proof (cases "r' = r")
      case True
      have il: "i < length info" using i True r e_le by simp
      have "\<forall>r''\<in>set rs. \<not> (fst r'' \<le> i \<and> i < snd r'')"
        using later i True r by fastforce
      then have "foldl (propagateCluster f c) info' rs ! i = info' ! i"
        using IH il by (simp add: len')
      then show ?thesis unfolding fold using i True r il by (simp add: nth')
    next
      case False
      then have mem: "r' \<in> set rs" using r' by simp
      have "snd r' \<le> length info" using Cons.prems(2) mem by simp
      then have il: "i < length info" using i by simp
      have "e \<le> i" using later [OF mem] i by simp
      then have "info' ! i = info ! i" using il by (simp add: nth')
      moreover have "foldl (propagateCluster f c) info' rs ! i =
          (info' ! i)\<lparr>Mask := adjustMask f c (clusterMask info' (fst r') (snd r'))\<rparr>"
        using IH mem i by blast
      ultimately show ?thesis unfolding fold by (simp add: same [OF mem])
    qed
  qed
qed


lemma propagateFlags_nth:
  assumes has: "bsfHasGlyphFlags \<in> scratchFlags buffer"
  shows "length (Info (propagateFlags buffer)) = length (Info buffer)"
    and "(s, e) \<in> set (clusterIterator buffer) \<Longrightarrow> s \<le> i \<Longrightarrow> i < e \<Longrightarrow>
      Info (propagateFlags buffer) ! i =
        (Info buffer ! i)\<lparr>Mask := adjustMask (ProduceSafeToInsertTatweel \<in> Flags buffer)
            (ProduceUnsafeToConcat \<notin> Flags buffer) (clusterMask (Info buffer) s e)\<rparr>"
proof -
  let ?rs = "clusterIterator buffer"
  have sorted: "sorted_wrt (\<lambda>r r'. snd r \<le> fst r') ?rs"
    by (simp add: clusterIterator_def clusterRanges_sorted)
  have bound: "\<forall>r\<in>set ?rs. snd r \<le> length (Info buffer)"
    using clusterRanges_bounds [of _ _ 0 "Info buffer"]
    by (auto simp: clusterIterator_def)
  note F = foldl_propagateCluster [OF sorted bound,
      of "ProduceSafeToInsertTatweel \<in> Flags buffer" "ProduceUnsafeToConcat \<notin> Flags buffer"]
  show "length (Info (propagateFlags buffer)) = length (Info buffer)"
    using has F by (simp add: propagateFlags_def Let_def)
  show "Info (propagateFlags buffer) ! i =
        (Info buffer ! i)\<lparr>Mask := adjustMask (ProduceSafeToInsertTatweel \<in> Flags buffer)
            (ProduceUnsafeToConcat \<notin> Flags buffer) (clusterMask (Info buffer) s e)\<rparr>"
    if "(s, e) \<in> set ?rs" "s \<le> i" "i < e"
    using has F that by (fastforce simp: propagateFlags_def Let_def)
qed

lemma propagateFlags_Mask:
  assumes has: "bsfHasGlyphFlags \<in> scratchFlags buffer"
    and g: "g \<in> set (Info (propagateFlags buffer))"
  obtains s e where "(s, e) \<in> set (clusterIterator buffer)" "e \<le> length (Info buffer)"
    "Mask g = adjustMask (ProduceSafeToInsertTatweel \<in> Flags buffer)
        (ProduceUnsafeToConcat \<notin> Flags buffer) (clusterMask (Info buffer) s e)"
proof -
  from g obtain i where i: "i < length (Info buffer)" and gi: "g = Info (propagateFlags buffer) ! i"
    by (auto simp: in_set_conv_nth propagateFlags_nth(1) [OF has])
  from clusterRanges_cover [OF i, of 0] obtain s e
    where r: "(s, e) \<in> set (clusterIterator buffer)" and si: "s \<le> i" and ie: "i < e"
    by (auto simp: clusterIterator_def)
  have "e \<le> length (Info buffer)"
    using clusterRanges_bounds [of s e 0 "Info buffer"] r by (simp add: clusterIterator_def)
  moreover have "Mask g = adjustMask (ProduceSafeToInsertTatweel \<in> Flags buffer)
        (ProduceUnsafeToConcat \<notin> Flags buffer) (clusterMask (Info buffer) s e)"
    by (simp add: gi propagateFlags_nth(2) [OF has r si ie])
  ultimately show ?thesis using r that by blast
qed

text \<open>
  Claim C3, as amended. \<open>propagateFlags\<close> clears \<open>GlyphUnsafeToConcat\<close> on every glyph
  unless the caller requested \<open>ProduceUnsafeToConcat\<close>. So: when \<open>ProduceUnsafeToConcat\<close>
  is requested, and every glyph entering \<open>propagateFlags\<close> that carries
  \<open>GlyphUnsafeToBreak\<close> also carries \<open>GlyphUnsafeToConcat\<close>, then so does every glyph of
  the output. When it is not requested and glyph flags were produced, no output glyph carries
  \<open>GlyphUnsafeToConcat\<close>, whether or not it carries \<open>GlyphUnsafeToBreak\<close>.
\<close>

theorem propagateFlags_break_implies_concat:
  "(ProduceUnsafeToConcat \<in> Flags buffer \<longrightarrow>
      (\<forall>g\<in>set (Info buffer). Mask g AND GlyphUnsafeToBreak \<noteq> 0 \<longrightarrow>
          Mask g AND GlyphUnsafeToConcat \<noteq> 0) \<longrightarrow>
      (\<forall>g\<in>set (Info (propagateFlags buffer)). Mask g AND GlyphUnsafeToBreak \<noteq> 0 \<longrightarrow>
          Mask g AND GlyphUnsafeToConcat \<noteq> 0)) \<and>
   (ProduceUnsafeToConcat \<notin> Flags buffer \<and> bsfHasGlyphFlags \<in> scratchFlags buffer \<longrightarrow>
      (\<forall>g\<in>set (Info (propagateFlags buffer)). Mask g AND GlyphUnsafeToConcat = 0))"
proof (intro conjI impI ballI)
  fix g
  assume req: "ProduceUnsafeToConcat \<in> Flags buffer"
    and pre: "\<forall>g\<in>set (Info buffer). Mask g AND GlyphUnsafeToBreak \<noteq> 0 \<longrightarrow>
          Mask g AND GlyphUnsafeToConcat \<noteq> 0"
    and g: "g \<in> set (Info (propagateFlags buffer))"
    and brk: "Mask g AND GlyphUnsafeToBreak \<noteq> 0"
  show "Mask g AND GlyphUnsafeToConcat \<noteq> 0"
  proof (cases "bsfHasGlyphFlags \<in> scratchFlags buffer")
    case False
    then show ?thesis using g brk pre by (simp add: propagateFlags_def)
  next
    case True
    from propagateFlags_Mask [OF True g] obtain s e
      where e: "e \<le> length (Info buffer)"
        and m: "Mask g = adjustMask (ProduceSafeToInsertTatweel \<in> Flags buffer)
          (ProduceUnsafeToConcat \<notin> Flags buffer) (clusterMask (Info buffer) s e)"
      by blast
    have pre': "bit (Mask (Info buffer ! i)) 0 \<Longrightarrow> bit (Mask (Info buffer ! i)) 1"
      if "i < e" for i
      using pre e that by (simp add: brk_iff cat_iff)
    have "bit (clusterMask (Info buffer) s e) 0 \<Longrightarrow> bit (clusterMask (Info buffer) s e) 1"
      using pre' by (auto simp: bit_clusterMask)
    then show ?thesis
      using brk req by (auto simp: m brk_iff cat_iff bit_adjustMask bit_flipTatweelMask split: if_splits)
  qed
next
  fix g
  assume a: "ProduceUnsafeToConcat \<notin> Flags buffer \<and> bsfHasGlyphFlags \<in> scratchFlags buffer"
    and g: "g \<in> set (Info (propagateFlags buffer))"
  from a have has: "bsfHasGlyphFlags \<in> scratchFlags buffer" by simp
  from propagateFlags_Mask [OF has g] obtain s e
    where "Mask g = adjustMask (ProduceSafeToInsertTatweel \<in> Flags buffer)
          (ProduceUnsafeToConcat \<notin> Flags buffer) (clusterMask (Info buffer) s e)"
    by blast
  then show "Mask g AND GlyphUnsafeToConcat = 0"
    using a cat_iff [of "Mask g"] by (simp add: bit_adjustMask)
qed

text \<open>
  Claim C10, as amended. \<open>propagateFlags\<close> returns the buffer as it is when the scratch flag
  \<open>bsfHasGlyphFlags\<close> is not set. When that scratch flag is set and
  \<open>ProduceSafeToInsertTatweel\<close> is requested, after \<open>propagateFlags\<close> every glyph that carries
  \<open>GlyphSafeToInsertTatweel\<close> carries \<open>GlyphUnsafeToBreak\<close>, and in every cluster whose merged
  mask had \<open>GlyphUnsafeToBreak\<close> before the propagation no glyph carries
  \<open>GlyphSafeToInsertTatweel\<close>.
\<close>

theorem propagateFlags_tatweel:
  "(ProduceSafeToInsertTatweel \<in> Flags buffer \<and> bsfHasGlyphFlags \<in> scratchFlags buffer \<longrightarrow>
      (\<forall>g\<in>set (Info (propagateFlags buffer)). Mask g AND GlyphSafeToInsertTatweel \<noteq> 0 \<longrightarrow>
          Mask g AND GlyphUnsafeToBreak \<noteq> 0) \<and>
      (\<forall>(s, e)\<in>set (clusterIterator buffer).
          clusterMask (Info buffer) s e AND GlyphUnsafeToBreak \<noteq> 0 \<longrightarrow>
          (\<forall>i. s \<le> i \<and> i < e \<longrightarrow>
              Mask (Info (propagateFlags buffer) ! i) AND GlyphSafeToInsertTatweel = 0))) \<and>
   (bsfHasGlyphFlags \<notin> scratchFlags buffer \<longrightarrow> propagateFlags buffer = buffer)"
proof (intro conjI impI)
  assume a: "ProduceSafeToInsertTatweel \<in> Flags buffer \<and> bsfHasGlyphFlags \<in> scratchFlags buffer"
  then have flip: "ProduceSafeToInsertTatweel \<in> Flags buffer"
    and has: "bsfHasGlyphFlags \<in> scratchFlags buffer"
    by simp_all
  show "\<forall>g\<in>set (Info (propagateFlags buffer)). Mask g AND GlyphSafeToInsertTatweel \<noteq> 0 \<longrightarrow>
          Mask g AND GlyphUnsafeToBreak \<noteq> 0"
  proof (intro ballI impI)
    fix g
    assume g: "g \<in> set (Info (propagateFlags buffer))"
      and twl: "Mask g AND GlyphSafeToInsertTatweel \<noteq> 0"
    from propagateFlags_Mask [OF has g] obtain s e
      where "Mask g = adjustMask (ProduceSafeToInsertTatweel \<in> Flags buffer)
          (ProduceUnsafeToConcat \<notin> Flags buffer) (clusterMask (Info buffer) s e)"
      by blast
    then show "Mask g AND GlyphUnsafeToBreak \<noteq> 0"
      using twl flip by (simp add: brk_iff twl_iff bit_adjustMask bit_flipTatweelMask)
  qed
  show "\<forall>(s, e)\<in>set (clusterIterator buffer).
          clusterMask (Info buffer) s e AND GlyphUnsafeToBreak \<noteq> 0 \<longrightarrow>
          (\<forall>i. s \<le> i \<and> i < e \<longrightarrow>
              Mask (Info (propagateFlags buffer) ! i) AND GlyphSafeToInsertTatweel = 0)"
  proof (clarify)
    fix s e i
    assume r: "(s, e) \<in> set (clusterIterator buffer)"
      and brk: "clusterMask (Info buffer) s e AND GlyphUnsafeToBreak \<noteq> 0"
      and i: "s \<le> i" "i < e"
    have "Info (propagateFlags buffer) ! i =
      (Info buffer ! i)\<lparr>Mask := adjustMask (ProduceSafeToInsertTatweel \<in> Flags buffer)
          (ProduceUnsafeToConcat \<notin> Flags buffer) (clusterMask (Info buffer) s e)\<rparr>"
      using r i by (intro propagateFlags_nth(2) [OF has]) simp_all
    then show "Mask (Info (propagateFlags buffer) ! i) AND GlyphSafeToInsertTatweel = 0"
      using brk flip
        twl_iff [of "adjustMask (ProduceSafeToInsertTatweel \<in> Flags buffer)
          (ProduceUnsafeToConcat \<notin> Flags buffer) (clusterMask (Info buffer) s e)"]
      by (simp add: brk_iff bit_adjustMask bit_flipTatweelMask)
  qed
next
  assume "bsfHasGlyphFlags \<notin> scratchFlags buffer"
  then show "propagateFlags buffer = buffer"
    by (simp add: propagateFlags_def)
qed

text \<open>
  Claim C3 as stated ("regardless of which buffer flags were requested") fails: with no buffer
  flag requested, a cluster that was marked unsafe to break and unsafe to concat leaves
  \<open>propagateFlags\<close> with \<open>GlyphUnsafeToBreak\<close> set and \<open>GlyphUnsafeToConcat\<close> cleared.
\<close>

theorem propagateFlags_break_without_concat:
  "Mask (Info (propagateFlags (bufferOf [glyphOf 0 3, glyphOf 0 0, glyphOf 1 0] {} {bsfHasGlyphFlags})) ! 0)
      AND GlyphUnsafeToBreak \<noteq> 0 \<and>
   Mask (Info (propagateFlags (bufferOf [glyphOf 0 3, glyphOf 0 0, glyphOf 1 0] {} {bsfHasGlyphFlags})) ! 0)
      AND GlyphUnsafeToConcat = 0"
  by (simp add: propagateFlags_def bufferOf_def glyphOf_def clusterIterator_def Let_def propagateCluster_def
      clusterMask_def setMaskRange_def adjustMask_def flipTatweelMask_def glyphFlagDefined_def
      GlyphUnsafeToBreak_def GlyphUnsafeToConcat_def GlyphSafeToInsertTatweel_def upt_rec)

theorem propagateFlags_break_implies_concat_witness:
  "ProduceUnsafeToConcat \<in> Flags (bufferOf [glyphOf 0 3, glyphOf 0 4, glyphOf 1 0] {ProduceUnsafeToConcat} {bsfHasGlyphFlags}) \<and>
   Mask (Info (propagateFlags (bufferOf [glyphOf 0 3, glyphOf 0 4, glyphOf 1 0] {ProduceUnsafeToConcat} {bsfHasGlyphFlags})) ! 1)
       AND GlyphUnsafeToBreak \<noteq> 0 \<and>
   Mask (Info (propagateFlags (bufferOf [glyphOf 0 3, glyphOf 0 4, glyphOf 1 0] {ProduceUnsafeToConcat} {bsfHasGlyphFlags})) ! 1)
       AND GlyphUnsafeToConcat \<noteq> 0 \<and>
   ProduceUnsafeToConcat \<notin> Flags (bufferOf [glyphOf 0 3, glyphOf 1 0] {} {bsfHasGlyphFlags}) \<and>
   bsfHasGlyphFlags \<in> scratchFlags (bufferOf [glyphOf 0 3, glyphOf 1 0] {} {bsfHasGlyphFlags}) \<and>
   Mask (Info (propagateFlags (bufferOf [glyphOf 0 3, glyphOf 1 0] {} {bsfHasGlyphFlags})) ! 0)
       AND GlyphUnsafeToConcat = 0"
proof -
  let ?b = "bufferOf [glyphOf 0 3, glyphOf 0 4, glyphOf 1 0] {ProduceUnsafeToConcat} {bsfHasGlyphFlags}"
  let ?b2 = "bufferOf [glyphOf 0 3, glyphOf 1 0] {} {bsfHasGlyphFlags}"
  have req: "ProduceUnsafeToConcat \<in> Flags ?b" by (simp add: bufferOf_def)
  have pre: "\<forall>g\<in>set (Info ?b). Mask g AND GlyphUnsafeToBreak \<noteq> 0 \<longrightarrow>
          Mask g AND GlyphUnsafeToConcat \<noteq> 0"
    by (simp add: bufferOf_def glyphOf_def GlyphUnsafeToBreak_def GlyphUnsafeToConcat_def)
  have len: "length (Info (propagateFlags ?b)) = 3"
    by (simp add: propagateFlags_nth(1) bufferOf_def)
  then have mem: "Info (propagateFlags ?b) ! 1 \<in> set (Info (propagateFlags ?b))"
    by (intro nth_mem) simp
  have brk: "Mask (Info (propagateFlags ?b) ! 1) AND GlyphUnsafeToBreak \<noteq> 0"
    by (simp add: propagateFlags_def bufferOf_def glyphOf_def clusterIterator_def Let_def
        propagateCluster_def clusterMask_def setMaskRange_def adjustMask_def flipTatweelMask_def
        glyphFlagDefined_def GlyphUnsafeToBreak_def GlyphUnsafeToConcat_def
        GlyphSafeToInsertTatweel_def upt_rec)
  have nreq: "ProduceUnsafeToConcat \<notin> Flags ?b2 \<and> bsfHasGlyphFlags \<in> scratchFlags ?b2"
    by (simp add: bufferOf_def)
  have len2: "length (Info (propagateFlags ?b2)) = 2"
    by (simp add: propagateFlags_nth(1) bufferOf_def)
  then have mem2: "Info (propagateFlags ?b2) ! 0 \<in> set (Info (propagateFlags ?b2))"
    by (intro nth_mem) simp
  from propagateFlags_break_implies_concat [of ?b] req pre mem brk
  have "Mask (Info (propagateFlags ?b) ! 1) AND GlyphUnsafeToConcat \<noteq> 0" by blast
  moreover from propagateFlags_break_implies_concat [of ?b2] nreq mem2
  have "Mask (Info (propagateFlags ?b2) ! 0) AND GlyphUnsafeToConcat = 0" by blast
  ultimately show ?thesis using req brk nreq by blast
qed

theorem propagateFlags_tatweel_witness:
  "ProduceSafeToInsertTatweel \<in> Flags (bufferOf [glyphOf 0 4, glyphOf 1 1, glyphOf 1 4] {ProduceSafeToInsertTatweel} {bsfHasGlyphFlags}) \<and>
   Mask (Info (propagateFlags (bufferOf [glyphOf 0 4, glyphOf 1 1, glyphOf 1 4] {ProduceSafeToInsertTatweel} {bsfHasGlyphFlags})) ! 0)
       AND GlyphSafeToInsertTatweel \<noteq> 0 \<and>
   Mask (Info (propagateFlags (bufferOf [glyphOf 0 4, glyphOf 1 1, glyphOf 1 4] {ProduceSafeToInsertTatweel} {bsfHasGlyphFlags})) ! 0)
       AND GlyphUnsafeToBreak \<noteq> 0 \<and>
   (1, 3) \<in> set (clusterIterator (bufferOf [glyphOf 0 4, glyphOf 1 1, glyphOf 1 4] {ProduceSafeToInsertTatweel} {bsfHasGlyphFlags})) \<and>
   clusterMask (Info (bufferOf [glyphOf 0 4, glyphOf 1 1, glyphOf 1 4] {ProduceSafeToInsertTatweel} {bsfHasGlyphFlags})) 1 3
       AND GlyphUnsafeToBreak \<noteq> 0 \<and>
   Mask (Info (propagateFlags (bufferOf [glyphOf 0 4, glyphOf 1 1, glyphOf 1 4] {ProduceSafeToInsertTatweel} {bsfHasGlyphFlags})) ! 2)
       AND GlyphSafeToInsertTatweel = 0 \<and>
   propagateFlags (bufferOf [glyphOf 0 1, glyphOf 0 0] {ProduceSafeToInsertTatweel} {}) =
     bufferOf [glyphOf 0 1, glyphOf 0 0] {ProduceSafeToInsertTatweel} {}"
proof -
  let ?b = "bufferOf [glyphOf 0 4, glyphOf 1 1, glyphOf 1 4] {ProduceSafeToInsertTatweel} {bsfHasGlyphFlags}"
  let ?b2 = "bufferOf [glyphOf 0 1, glyphOf 0 0] {ProduceSafeToInsertTatweel} {}"
  have flip: "ProduceSafeToInsertTatweel \<in> Flags ?b \<and> bsfHasGlyphFlags \<in> scratchFlags ?b"
    by (simp add: bufferOf_def)
  have r: "(1, 3) \<in> set (clusterIterator ?b)"
    by (simp add: clusterIterator_def bufferOf_def glyphOf_def)
  have m: "clusterMask (Info ?b) 1 3 AND GlyphUnsafeToBreak \<noteq> 0"
    by (simp add: clusterMask_def bufferOf_def glyphOf_def glyphFlagDefined_def GlyphUnsafeToBreak_def
        GlyphUnsafeToConcat_def GlyphSafeToInsertTatweel_def upt_rec)
  have len: "length (Info (propagateFlags ?b)) = 3"
    by (simp add: propagateFlags_nth(1) bufferOf_def)
  then have mem: "Info (propagateFlags ?b) ! 0 \<in> set (Info (propagateFlags ?b))"
    by (intro nth_mem) simp
  have twl: "Mask (Info (propagateFlags ?b) ! 0) AND GlyphSafeToInsertTatweel \<noteq> 0"
    by (simp add: propagateFlags_def bufferOf_def glyphOf_def clusterIterator_def Let_def
        propagateCluster_def clusterMask_def setMaskRange_def adjustMask_def flipTatweelMask_def
        glyphFlagDefined_def GlyphUnsafeToBreak_def GlyphUnsafeToConcat_def
        GlyphSafeToInsertTatweel_def upt_rec)
  have no: "bsfHasGlyphFlags \<notin> scratchFlags ?b2" by (simp add: bufferOf_def)
  from propagateFlags_tatweel [of ?b] flip
  have A: "\<forall>g\<in>set (Info (propagateFlags ?b)). Mask g AND GlyphSafeToInsertTatweel \<noteq> 0 \<longrightarrow>
          Mask g AND GlyphUnsafeToBreak \<noteq> 0"
    and B: "\<forall>(s, e)\<in>set (clusterIterator ?b).
          clusterMask (Info ?b) s e AND GlyphUnsafeToBreak \<noteq> 0 \<longrightarrow>
          (\<forall>i. s \<le> i \<and> i < e \<longrightarrow>
              Mask (Info (propagateFlags ?b) ! i) AND GlyphSafeToInsertTatweel = 0)"
    by blast+
  from A mem twl have 1: "Mask (Info (propagateFlags ?b) ! 0) AND GlyphUnsafeToBreak \<noteq> 0"
    by blast
  from B r have "clusterMask (Info ?b) 1 3 AND GlyphUnsafeToBreak \<noteq> 0 \<longrightarrow>
          (\<forall>i. 1 \<le> i \<and> i < 3 \<longrightarrow>
              Mask (Info (propagateFlags ?b) ! i) AND GlyphSafeToInsertTatweel = 0)"
    by blast
  with m have 2: "Mask (Info (propagateFlags ?b) ! 2) AND GlyphSafeToInsertTatweel = 0"
    by simp
  from propagateFlags_tatweel [of ?b2] no have 3: "propagateFlags ?b2 = ?b2" by blast
  from flip have f: "ProduceSafeToInsertTatweel \<in> Flags ?b" by (rule conjunct1)
  show ?thesis
    by (intro conjI f twl 1 r m 2 3)
qed

text \<open>
  Claim C10 as stated fails for a buffer whose scratch flag \<open>bsfHasGlyphFlags\<close> is not set:
  \<open>propagateFlags\<close> returns at once, and a glyph that carries \<open>GlyphSafeToInsertTatweel\<close> leaves
  it without \<open>GlyphUnsafeToBreak\<close>, although \<open>ProduceSafeToInsertTatweel\<close> is requested.
\<close>

theorem propagateFlags_tatweel_without_break:
  "ProduceSafeToInsertTatweel \<in> Flags (bufferOf [glyphOf 0 4] {ProduceSafeToInsertTatweel} {}) \<and>
   Mask (Info (propagateFlags (bufferOf [glyphOf 0 4] {ProduceSafeToInsertTatweel} {})) ! 0)
       AND GlyphSafeToInsertTatweel \<noteq> 0 \<and>
   Mask (Info (propagateFlags (bufferOf [glyphOf 0 4] {ProduceSafeToInsertTatweel} {})) ! 0)
       AND GlyphUnsafeToBreak = 0"
  by (simp add: propagateFlags_def bufferOf_def glyphOf_def GlyphUnsafeToBreak_def
      GlyphSafeToInsertTatweel_def)

section \<open>Hiding default ignorables\<close>

lemma isDefaultIgnorable_Glyph_update [simp]:
  "isDefaultIgnorable sb (info\<lparr>Glyph := v\<rparr>) = isDefaultIgnorable sb info"
  by (simp add: isDefaultIgnorable_def substituted_def)

text \<open>
  Claim C9, as amended. \<open>hideDefaultIgnorables\<close> returns the buffer as it is when the scratch
  flag \<open>bsfHasDefaultIgnorables\<close> is not set or \<open>PreserveDefaultIgnorables\<close> is requested:
  nothing is deleted and nothing is replaced. Past that guard: if the buffer's \<open>Invisible\<close>
  glyph is not zero, the default-ignorable glyphs are deleted, whatever the font and whether
  or not \<open>RemoveDefaultIgnorables\<close> is set; and a default-ignorable glyph is still in the
  buffer afterwards (the replacement branch was taken) only if \<open>Invisible\<close> is zero, the
  lookup of the space glyph succeeded and \<open>RemoveDefaultIgnorables\<close> is not set.
\<close>

theorem hideDefaultIgnorables_deletes:
  "(bsfHasDefaultIgnorables \<notin> scratchFlags buffer \<or> PreserveDefaultIgnorables \<in> Flags buffer \<longrightarrow>
      hideDefaultIgnorables sb NominalGlyph buffer = buffer) \<and>
   (bsfHasDefaultIgnorables \<in> scratchFlags buffer \<and> PreserveDefaultIgnorables \<notin> Flags buffer \<longrightarrow>
      (Invisible buffer \<noteq> 0 \<longrightarrow>
         hideDefaultIgnorables sb NominalGlyph buffer =
           otLayoutDeleteGlyphsInplace buffer (isDefaultIgnorable sb) \<and>
         Info (hideDefaultIgnorables sb NominalGlyph buffer) =
           filter (\<lambda>g. \<not> isDefaultIgnorable sb g) (Info buffer)) \<and>
      ((\<exists>g\<in>set (Info (hideDefaultIgnorables sb NominalGlyph buffer)). isDefaultIgnorable sb g) \<longrightarrow>
         Invisible buffer = 0 \<and> snd (NominalGlyph 0x20) \<and>
         RemoveDefaultIgnorables \<notin> Flags buffer))"
proof -
  have G: "hideDefaultIgnorables sb NominalGlyph buffer = buffer"
    if "bsfHasDefaultIgnorables \<notin> scratchFlags buffer \<or> PreserveDefaultIgnorables \<in> Flags buffer"
    using that by (simp add: hideDefaultIgnorables_def)
  have A: "hideDefaultIgnorables sb NominalGlyph buffer =
      otLayoutDeleteGlyphsInplace buffer (isDefaultIgnorable sb)"
    if "bsfHasDefaultIgnorables \<in> scratchFlags buffer" "PreserveDefaultIgnorables \<notin> Flags buffer"
      "Invisible buffer \<noteq> 0"
    using that by (simp add: hideDefaultIgnorables_def)
  have B: "Info (hideDefaultIgnorables sb NominalGlyph buffer) =
      filter (\<lambda>g. \<not> isDefaultIgnorable sb g) (Info buffer)"
    if "bsfHasDefaultIgnorables \<in> scratchFlags buffer" "PreserveDefaultIgnorables \<notin> Flags buffer"
      "Invisible buffer \<noteq> 0"
    using A [OF that] by (simp add: otLayoutDeleteGlyphsInplace_def)
  have C: "Invisible buffer = 0 \<and> snd (NominalGlyph 0x20) \<and> RemoveDefaultIgnorables \<notin> Flags buffer"
    if has: "bsfHasDefaultIgnorables \<in> scratchFlags buffer"
      and keep: "PreserveDefaultIgnorables \<notin> Flags buffer"
      and ex: "\<exists>g\<in>set (Info (hideDefaultIgnorables sb NominalGlyph buffer)). isDefaultIgnorable sb g"
  proof -
    have del: "\<not> (\<exists>g\<in>set (Info (otLayoutDeleteGlyphsInplace buffer (isDefaultIgnorable sb))).
        isDefaultIgnorable sb g)"
      by (simp add: otLayoutDeleteGlyphsInplace_def)
    have "hideDefaultIgnorables sb NominalGlyph buffer \<noteq>
        otLayoutDeleteGlyphsInplace buffer (isDefaultIgnorable sb)"
      using ex del by metis
    then show ?thesis
      using has keep
      by (auto simp: hideDefaultIgnorables_def Let_def split: if_splits prod.splits)
  qed
  from G A B C show ?thesis by blast
qed

text \<open>
  Claim C9 as stated fails when \<open>PreserveDefaultIgnorables\<close> is requested: with
  \<open>Invisible = 5\<close>, \<open>RemoveDefaultIgnorables\<close> not set and a default-ignorable glyph in
  the buffer, the glyph is neither deleted nor replaced.
\<close>

theorem hideDefaultIgnorables_preserve_keeps:
  "isDefaultIgnorable 0x10
     (Info (hideDefaultIgnorables 0x10 (\<lambda>r. (3, True))
        ((bufferOf [glyphOf 0 0, (glyphOf 1 0)\<lparr>unicode := upropsMaskIgnorable\<rparr>]
           {PreserveDefaultIgnorables} {bsfHasDefaultIgnorables})\<lparr>Invisible := 5\<rparr>)) ! 1) \<and>
   Glyph (Info (hideDefaultIgnorables 0x10 (\<lambda>r. (3, True))
        ((bufferOf [glyphOf 0 0, (glyphOf 1 0)\<lparr>unicode := upropsMaskIgnorable\<rparr>]
           {PreserveDefaultIgnorables} {bsfHasDefaultIgnorables})\<lparr>Invisible := 5\<rparr>)) ! 1) = 0 \<and>
   length (Info (hideDefaultIgnorables 0x10 (\<lambda>r. (3, True))
        ((bufferOf [glyphOf 0 0, (glyphOf 1 0)\<lparr>unicode := upropsMaskIgnorable\<rparr>]
           {PreserveDefaultIgnorables} {bsfHasDefaultIgnorables})\<lparr>Invisible := 5\<rparr>))) = 2"
  by (simp add: hideDefaultIgnorables_def bufferOf_def glyphOf_def isDefaultIgnorable_def
      substituted_def upropsMaskIgnorable_def)

theorem hideDefaultIgnorables_deletes_witness:
  "Info (hideDefaultIgnorables 0x10 (\<lambda>r. (3, True))
        ((bufferOf [glyphOf 0 0, (glyphOf 1 0)\<lparr>unicode := upropsMaskIgnorable\<rparr>]
           {} {bsfHasDefaultIgnorables})\<lparr>Invisible := 5\<rparr>)) = [glyphOf 0 0] \<and>
   hideDefaultIgnorables 0x10 (\<lambda>r. (3, True))
        ((bufferOf [glyphOf 0 0, (glyphOf 1 0)\<lparr>unicode := upropsMaskIgnorable\<rparr>]
           {} {})\<lparr>Invisible := 5\<rparr>) =
     (bufferOf [glyphOf 0 0, (glyphOf 1 0)\<lparr>unicode := upropsMaskIgnorable\<rparr>] {} {})\<lparr>Invisible := 5\<rparr> \<and>
   hideDefaultIgnorables 0x10 (\<lambda>r. (3, True))
        (bufferOf [glyphOf 0 0, (glyphOf 1 0)\<lparr>unicode := upropsMaskIgnorable\<rparr>]
           {PreserveDefaultIgnorables, RemoveDefaultIgnorables} {bsfHasDefaultIgnorables}) =
     bufferOf [glyphOf 0 0, (glyphOf 1 0)\<lparr>unicode := upropsMaskIgnorable\<rparr>]
           {PreserveDefaultIgnorables, RemoveDefaultIgnorables} {bsfHasDefaultIgnorables}"
proof -
  let ?xs = "[glyphOf 0 0, (glyphOf 1 0)\<lparr>unicode := upropsMaskIgnorable\<rparr>]"
  let ?b = "(bufferOf ?xs {} {bsfHasDefaultIgnorables})\<lparr>Invisible := 5\<rparr>"
  let ?b2 = "(bufferOf ?xs {} {})\<lparr>Invisible := 5\<rparr>"
  let ?b3 = "bufferOf ?xs {PreserveDefaultIgnorables, RemoveDefaultIgnorables} {bsfHasDefaultIgnorables}"
  have has: "bsfHasDefaultIgnorables \<in> scratchFlags ?b \<and> PreserveDefaultIgnorables \<notin> Flags ?b"
    by (simp add: bufferOf_def)
  have inv: "Invisible ?b \<noteq> 0" by simp
  from hideDefaultIgnorables_deletes [of ?b "0x10" "\<lambda>r. (3, True)"] has inv
  have "Info (hideDefaultIgnorables 0x10 (\<lambda>r. (3, True)) ?b) =
      filter (\<lambda>g. \<not> isDefaultIgnorable 0x10 g) (Info ?b)"
    by blast
  then have 1: "Info (hideDefaultIgnorables 0x10 (\<lambda>r. (3, True)) ?b) = [glyphOf 0 0]"
    by (simp add: bufferOf_def glyphOf_def isDefaultIgnorable_def substituted_def upropsMaskIgnorable_def)
  have "bsfHasDefaultIgnorables \<notin> scratchFlags ?b2 \<or> PreserveDefaultIgnorables \<in> Flags ?b2"
    by (simp add: bufferOf_def)
  with hideDefaultIgnorables_deletes [of ?b2 "0x10" "\<lambda>r. (3, True)"]
  have 2: "hideDefaultIgnorables 0x10 (\<lambda>r. (3, True)) ?b2 = ?b2" by blast
  have "bsfHasDefaultIgnorables \<notin> scratchFlags ?b3 \<or> PreserveDefaultIgnorables \<in> Flags ?b3"
    by (simp add: bufferOf_def)
  with hideDefaultIgnorables_deletes [of ?b3 "0x10" "\<lambda>r. (3, True)"]
  have 3: "hideDefaultIgnorables 0x10 (\<lambda>r. (3, True)) ?b3 = ?b3" by blast
  from 1 2 3 show ?thesis by (intro conjI)
qed

section \<open>Recursion into nested lookups\<close>

lemma recurse_step:
  "0 < maxOps (ctxBuffer c) \<Longrightarrow> nestingLevelLeft c \<noteq> 0 \<Longrightarrow>
   recurse (Some f) c i =
     (case f (c\<lparr>nestingLevelLeft := nestingLevelLeft c - 1\<rparr>) i of
        Inl p \<Rightarrow> Inl p
      | Inr (ret, c') \<Rightarrow> Inr (ret, c'\<lparr>nestingLevelLeft := nestingLevelLeft c' + 1\<rparr>))"
  by (simp add: recurse_def recurseCall_def)

lemma recurse_step_zero:
  "0 < maxOps (ctxBuffer c) \<Longrightarrow> nestingLevelLeft c = 0 \<Longrightarrow>
   recurse (Some f) c i =
     (case f ((decMaxOps c)\<lparr>nestingLevelLeft := - 1\<rparr>) i of
        Inl p \<Rightarrow> Inl p
      | Inr (ret, c') \<Rightarrow> Inr (ret, c'\<lparr>nestingLevelLeft := nestingLevelLeft c' + 1\<rparr>))"
  by (simp add: recurse_def recurseCall_def decMaxOps_def)

lemma recurse_nestedLookup_below:
  "nestingLevelLeft c < 0 \<Longrightarrow> 0 < maxOps (ctxBuffer c) \<Longrightarrow>
   recurse (Some (nestedLookup n)) c i = Inr (True, c)"
proof (induction n arbitrary: c)
  case 0
  then show ?case by (simp add: recurse_step)
next
  case (Suc n)
  let ?c1 = "c\<lparr>nestingLevelLeft := nestingLevelLeft c - 1\<rparr>"
  have "recurse (Some (nestedLookup n)) ?c1 i = Inr (True, ?c1)"
    using Suc.prems by (intro Suc.IH) simp_all
  then show ?case using Suc.prems by (simp add: recurse_step)
qed

lemma recurse_nestedLookup:
  "0 \<le> nestingLevelLeft c \<Longrightarrow> 1 < maxOps (ctxBuffer c) \<Longrightarrow>
   recurse (Some (nestedLookup n)) c i =
     Inr (True, if nestingLevelLeft c \<le> int n then decMaxOps c else c)"
proof (induction n arbitrary: c)
  case 0
  then show ?case
    by (cases "nestingLevelLeft c = 0") (simp_all add: recurse_step recurse_step_zero decMaxOps_def)
next
  case (Suc n)
  show ?case
  proof (cases "nestingLevelLeft c = 0")
    case True
    let ?c1 = "(decMaxOps c)\<lparr>nestingLevelLeft := - 1\<rparr>"
    have "recurse (Some (nestedLookup n)) ?c1 i = Inr (True, ?c1)"
      using Suc.prems by (intro recurse_nestedLookup_below) (simp_all add: decMaxOps_def)
    then show ?thesis
      using Suc.prems True by (simp add: recurse_step_zero decMaxOps_def)
  next
    case False
    let ?c1 = "c\<lparr>nestingLevelLeft := nestingLevelLeft c - 1\<rparr>"
    have "recurse (Some (nestedLookup n)) ?c1 i =
        Inr (True, if nestingLevelLeft ?c1 \<le> int n then decMaxOps ?c1 else ?c1)"
      using Suc.prems False by (intro Suc.IH) simp_all
    then show ?thesis
      using Suc.prems False by (auto simp: recurse_step decMaxOps_def)
  qed
qed

text \<open>
  Claim C2 says that \<open>recurse\<close> returns false without invoking the nested lookup once
  \<open>nestingLevelLeft\<close> has reached zero. The guard of \<open>recurse\<close> tests
  \<open>nestingLevelLeft == 0\<close>, but its block returns only when \<open>maxOps <= 0\<close>; otherwise it
  decrements \<open>maxOps\<close> and falls through to the call. On a freshly reset context
  (\<open>nestingLevelLeft = 64\<close>) whose level is set to zero, \<open>recurse\<close> invokes the nested lookup
  and returns its \<open>true\<close>; and from the reset context itself a nesting of 100 levels runs to
  the innermost lookup, with \<open>maxOps\<close> decremented once.
\<close>

theorem recurse_not_clipped_at_zero:
  "recurse (Some (nestedLookup 0))
      ((freshContext (shapeLimits (bufferOf [glyphOf 0 0] {} {})))\<lparr>nestingLevelLeft := 0\<rparr>) 7 =
     Inr (True, decMaxOps
       ((freshContext (shapeLimits (bufferOf [glyphOf 0 0] {} {})))\<lparr>nestingLevelLeft := 0\<rparr>)) \<and>
   nestingLevelLeft (freshContext (shapeLimits (bufferOf [glyphOf 0 0] {} {}))) = 64 \<and>
   recurse (Some (nestedLookup 99)) (freshContext (shapeLimits (bufferOf [glyphOf 0 0] {} {}))) 7 =
     Inr (True, decMaxOps (freshContext (shapeLimits (bufferOf [glyphOf 0 0] {} {}))))"
proof -
  let ?c = "freshContext (shapeLimits (bufferOf [glyphOf 0 0] {} {}))"
  have ops: "maxOps (ctxBuffer ?c) = 16384"
    by (simp add: freshContext_def reset_def shapeLimits_def bufferOf_def)
  have lvl: "nestingLevelLeft ?c = 64"
    by (simp add: freshContext_def reset_def maxNestingLevel_def)
  have "recurse (Some (nestedLookup 0)) (?c\<lparr>nestingLevelLeft := 0\<rparr>) 7 =
      Inr (True, decMaxOps (?c\<lparr>nestingLevelLeft := 0\<rparr>))"
    using ops by (subst recurse_nestedLookup) simp_all
  moreover have "recurse (Some (nestedLookup 99)) ?c 7 = Inr (True, decMaxOps ?c)"
    using ops lvl by (subst recurse_nestedLookup) simp_all
  ultimately show ?thesis using lvl by simp
qed

section \<open>The limits in \<open>otMap.apply\<close>\<close>

declare applyLookups.simps [simp del]

lemma applyLookups_returned:
  "applyLookups applyString accels lookups lastLk i c = Inr (True, i', c') \<Longrightarrow>
   maxLen (ctxBuffer c') < int (length (Info (ctxBuffer c')))"
proof (induction applyString accels lookups lastLk i c rule: applyLookups.induct)
  case (1 applyString accels lookups lastLk i c)
  show ?case
    using "1.prems" "1.IH"
    by (subst (asm) applyLookups.simps) (auto simp: Let_def split: if_splits)
qed

lemma applyStages_returned:
  "applyStages applyString bufferDigest accels lookups stages i c = Inr (True, c') \<Longrightarrow>
   maxLen (ctxBuffer c') < int (length (Info (ctxBuffer c')))"
proof (induction stages arbitrary: i c)
  case Nil
  then show ?case by simp
next
  case (Cons stage stages)
  then show ?case
    by (auto split: sum.splits if_splits dest: applyLookups_returned)
qed


lemma applyLookups_at_limit:
  assumes "i < lastLk" "0 \<le> i" "i < int (length lookups)"
    and "unat (lm_index (lookups ! nat i)) < length accels"
    and "setDigest_mayHaveDigest (accels ! unat (lm_index (lookups ! nat i))) (digest c)"
    and "maxLen (ctxBuffer c) < int (length (Info (ctxBuffer c)))"
  shows "\<exists>c1. applyLookups applyString accels lookups lastLk i c = Inr (True, i, c1) \<and>
      ctxBuffer c1 = ctxBuffer c"
  using assms by (subst applyLookups.simps) (simp add: Let_def)

lemma applyLookups_done:
  "applyLookups applyString accels lookups lastLk i c = Inr (False, i', c') \<Longrightarrow>
   i' = max i lastLk"
proof (induction applyString accels lookups lastLk i c rule: applyLookups.induct)
  case (1 applyString accels lookups lastLk i c)
  show ?case
    using "1.prems" "1.IH"
    by (subst (asm) applyLookups.simps) (auto simp: Let_def split: if_splits)
qed

lemma applyLookups_split:
  "i \<le> k \<Longrightarrow> k \<le> lastLk \<Longrightarrow>
   applyLookups applyString accels lookups lastLk i c =
     (case applyLookups applyString accels lookups k i c of
        Inl p \<Rightarrow> Inl p
      | Inr (returned, k', ck) \<Rightarrow>
          if returned then Inr (True, k', ck)
          else applyLookups applyString accels lookups lastLk k' ck)"
proof (induction applyString accels lookups k i c rule: applyLookups.induct)
  case (1 applyString accels lookups k i c)
  show ?case
  proof (cases "i < k")
    case False
    then have "i = k" using "1.prems" by simp
    then show ?thesis by (simp add: applyLookups.simps [of _ _ _ k k])
  next
    case True
    then have lt: "i < lastLk" using "1.prems" by simp
    show ?thesis
      using True lt "1.prems" "1.IH"
      by (subst applyLookups.simps [of _ _ _ lastLk i], subst applyLookups.simps [of _ _ _ k i])
         (simp add: Let_def)
  qed
qed

lemma applyStages_append:
  "applyStages applyString bufferDigest accels lookups (pre @ post) i c =
     (case applyStages applyString bufferDigest accels lookups pre i c of
        Inl p \<Rightarrow> Inl p
      | Inr (returned, c') \<Rightarrow>
          if returned then Inr (True, c')
          else applyStages applyString bufferDigest accels lookups post
                 (foldl (\<lambda>j st. max j (lastLookup st)) i pre) c')"
proof (induction pre arbitrary: i c)
  case Nil
  then show ?case by simp
next
  case (Cons stg pre)
  show ?case
  proof (cases "applyLookups applyString accels lookups (lastLookup stg) i c")
    case (Inl p)
    then show ?thesis by simp
  next
    case (Inr r)
    obtain returned i' c' where r: "r = (returned, i', c')" by (cases r)
    show ?thesis
    proof (cases returned)
      case True
      then show ?thesis using Inr r by simp
    next
      case False
      then have "applyLookups applyString accels lookups (lastLookup stg) i c = Inr (False, i', c')"
        using Inr r by simp
      then have "i' = max i (lastLookup stg)"
        by (rule applyLookups_done)
      moreover have "foldl (\<lambda>j st. max j (lastLookup st)) i (stg # pre) =
          foldl (\<lambda>j st. max j (lastLookup st)) (max i (lastLookup stg)) pre"
        by simp
      ultimately show ?thesis using Inr r False by (simp only: append_Cons applyStages.simps
            sum.case prod.case if_False Cons.IH)
    qed
  qed
qed

lemma otMap_apply_at_limit:
  assumes pre: "applyStages applyString bufferDigest accels lookups pre 0
                  (reset bufferDigest fontHasGlyphClasses c tableIdx buffer) = Inr (False, c1)"
    and k: "foldl (\<lambda>j st. max j (lastLookup st)) 0 pre \<le> k" "k < lastLookup stg"
    and before: "applyLookups applyString accels lookups k
                   (foldl (\<lambda>j st. max j (lastLookup st)) 0 pre) c1 = Inr (False, k, ck)"
    and rng: "0 \<le> k" "k < int (length lookups)"
             "unat (lm_index (lookups ! nat k)) < length accels"
    and dig: "setDigest_mayHaveDigest (accels ! unat (lm_index (lookups ! nat k))) (digest ck)"
    and lim: "maxLen (ctxBuffer ck) < int (length (Info (ctxBuffer ck)))"
  shows "\<exists>c2. otMap_apply applyString bufferDigest fontHasGlyphClasses accels tableIdx lookups
                 (pre @ stg # post) c buffer = Inr (True, c2) \<and>
               ctxBuffer c2 = ctxBuffer ck"
proof -
  let ?i1 = "foldl (\<lambda>j st. max j (lastLookup st)) 0 pre"
  from applyLookups_at_limit [of k "lastLookup stg" lookups accels ck applyString]
  obtain c2 where at: "applyLookups applyString accels lookups (lastLookup stg) k ck = Inr (True, k, c2)"
    and buf: "ctxBuffer c2 = ctxBuffer ck"
    using k rng dig lim by auto
  have "applyLookups applyString accels lookups (lastLookup stg) ?i1 c1 = Inr (True, k, c2)"
    using k before at
    by (subst applyLookups_split [of ?i1 k "lastLookup stg"]) simp_all
  then have "applyStages applyString bufferDigest accels lookups (stg # post) ?i1 c1 = Inr (True, c2)"
    by simp
  then have "otMap_apply applyString bufferDigest fontHasGlyphClasses accels tableIdx lookups
                 (pre @ stg # post) c buffer = Inr (True, c2)"
    unfolding otMap_apply_def applyStages_append using pre by simp
  with buf show ?thesis by blast
qed


text \<open>
  Claim C1, as amended. \<open>otMap.apply\<close> returns early only with a buffer that holds more than
  \<open>maxLen\<close> glyphs. And whenever it is about to apply a lookup and finds the buffer longer than
  \<open>maxLen\<close>, it returns there: say the stages \<open>pre\<close> have run to their end, and in the next
  stage the lookups before index \<open>k\<close> have run and left the context \<open>ck\<close>, whose buffer is
  longer than \<open>maxLen\<close>, and the digest of lookup \<open>k\<close> lets it in; then \<open>apply\<close> returns with
  the buffer of \<open>ck\<close>, whatever the lookups after \<open>k\<close>, the pause function of the stage and the
  stages \<open>post\<close> after it are: none of them is run, and nothing is discarded. When \<open>maxOps\<close> is
  exhausted, \<open>recurse\<close> returns false and leaves the glyphs of the buffer as they are.
\<close>

theorem otMap_apply_limit_keeps_buffer:
  "(otMap_apply applyString bufferDigest fontHasGlyphClasses accels tableIdx lookups stages c buffer =
        Inr (True, c') \<longrightarrow>
      maxLen (ctxBuffer c') < int (length (Info (ctxBuffer c')))) \<and>
   (applyStages applyString bufferDigest accels lookups pre 0
        (reset bufferDigest fontHasGlyphClasses c tableIdx buffer) = Inr (False, c1) \<and>
      foldl (\<lambda>j st. max j (lastLookup st)) 0 pre \<le> k \<and> k < lastLookup stg \<and>
      applyLookups applyString accels lookups k
        (foldl (\<lambda>j st. max j (lastLookup st)) 0 pre) c1 = Inr (False, k, ck) \<and>
      0 \<le> k \<and> k < int (length lookups) \<and>
      unat (lm_index (lookups ! nat k)) < length accels \<and>
      setDigest_mayHaveDigest (accels ! unat (lm_index (lookups ! nat k))) (digest ck) \<and>
      maxLen (ctxBuffer ck) < int (length (Info (ctxBuffer ck))) \<longrightarrow>
      (\<exists>c2. otMap_apply applyString bufferDigest fontHasGlyphClasses accels tableIdx lookups
               (pre @ stg # post) c buffer = Inr (True, c2) \<and>
            ctxBuffer c2 = ctxBuffer ck)) \<and>
   (maxOps (ctxBuffer cr) \<le> 0 \<longrightarrow>
      recurse recurseFn cr subLookupIndex = Inr (False, decMaxOps cr) \<and>
      Info (ctxBuffer (decMaxOps cr)) = Info (ctxBuffer cr))"
proof (intro conjI impI)
  assume "otMap_apply applyString bufferDigest fontHasGlyphClasses accels tableIdx lookups stages c buffer =
        Inr (True, c')"
  then show "maxLen (ctxBuffer c') < int (length (Info (ctxBuffer c')))"
    unfolding otMap_apply_def by (rule applyStages_returned)
next
  assume "applyStages applyString bufferDigest accels lookups pre 0
        (reset bufferDigest fontHasGlyphClasses c tableIdx buffer) = Inr (False, c1) \<and>
      foldl (\<lambda>j st. max j (lastLookup st)) 0 pre \<le> k \<and> k < lastLookup stg \<and>
      applyLookups applyString accels lookups k
        (foldl (\<lambda>j st. max j (lastLookup st)) 0 pre) c1 = Inr (False, k, ck) \<and>
      0 \<le> k \<and> k < int (length lookups) \<and>
      unat (lm_index (lookups ! nat k)) < length accels \<and>
      setDigest_mayHaveDigest (accels ! unat (lm_index (lookups ! nat k))) (digest ck) \<and>
      maxLen (ctxBuffer ck) < int (length (Info (ctxBuffer ck)))"
  then show "\<exists>c2. otMap_apply applyString bufferDigest fontHasGlyphClasses accels tableIdx lookups
               (pre @ stg # post) c buffer = Inr (True, c2) \<and>
            ctxBuffer c2 = ctxBuffer ck"
    by (intro otMap_apply_at_limit [where ?c1.0 = c1 and k = k]) simp_all
next
  assume "maxOps (ctxBuffer cr) \<le> 0"
  then show "recurse recurseFn cr subLookupIndex = Inr (False, decMaxOps cr)"
    by (simp add: recurse_def)
next
  show "Info (ctxBuffer (decMaxOps cr)) = Info (ctxBuffer cr)"
    by (simp add: decMaxOps_def)
qed

lemma grow_run:
  "otMap_apply growString (\<lambda>b. (1, 1, 1)) False [(1, 1, 1), (1, 1, 1)] 0
      [lookupOf 0, lookupOf 1] [\<lparr>pauseFunc = None, lastLookup = 2\<rparr>]
      (zeroContext (shapeLimits (bufferOf [glyphOf 0 0] {} {})))
      (shapeLimits (bufferOf [glyphOf 0 0] {} {})) =
    Inr (True, (growString (reset (\<lambda>b. (1, 1, 1)) False
        (zeroContext (shapeLimits (bufferOf [glyphOf 0 0] {} {}))) 0
        (shapeLimits (bufferOf [glyphOf 0 0] {} {}))) 0)\<lparr>lookupIndex := 1\<rparr>)"
  by (simp add: otMap_apply_def applyLookups.simps [of _ _ _ _ 0] applyLookups.simps [of _ _ _ _ 1]
      applyLookups.simps [of _ _ _ _ 2] reset_def zeroContext_def shapeLimits_def bufferOf_def
      lookupOf_def growString_def setBits_mayHaveSet_def Let_def)

text \<open>
  Claim C1 as stated fails. A buffer of one glyph gets \<open>maxLen = 16384\<close>; the first lookup
  grows it to 16385 glyphs; at the second lookup \<open>apply\<close> returns early, and the buffer still
  holds the 16385 glyphs.
\<close>

theorem otMap_apply_limit_buffer_not_empty:
  "(case otMap_apply growString (\<lambda>b. (1, 1, 1)) False [(1, 1, 1), (1, 1, 1)] 0
      [lookupOf 0, lookupOf 1] [\<lparr>pauseFunc = None, lastLookup = 2\<rparr>]
      (zeroContext (shapeLimits (bufferOf [glyphOf 0 0] {} {})))
      (shapeLimits (bufferOf [glyphOf 0 0] {} {})) of
      Inl p \<Rightarrow> [] | Inr (returned, c') \<Rightarrow> if returned then Info (ctxBuffer c') else []) =
    replicate 16385 (glyphOf 0 0)"
  by (simp add: grow_run growString_def)

theorem otMap_apply_limit_keeps_buffer_witness:
  "(\<exists>c2. otMap_apply growString (\<lambda>b. (1, 1, 1)) False [(1, 1, 1), (1, 1, 1)] 0
            [lookupOf 0, lookupOf 1]
            [\<lparr>pauseFunc = Some (\<lambda>b. (True, b\<lparr>Info := []\<rparr>)), lastLookup = 2\<rparr>,
             \<lparr>pauseFunc = Some (\<lambda>b. (True, b\<lparr>Info := []\<rparr>)), lastLookup = 2\<rparr>]
            (zeroContext (shapeLimits (bufferOf [glyphOf 0 0] {} {})))
            (shapeLimits (bufferOf [glyphOf 0 0] {} {})) = Inr (True, c2) \<and>
      Info (ctxBuffer c2) = replicate 16385 (glyphOf 0 0) \<and>
      maxLen (ctxBuffer c2) < int (length (Info (ctxBuffer c2)))) \<and>
   recurse None (zeroContext ((bufferOf [glyphOf 0 0] {} {})\<lparr>maxOps := 0\<rparr>)) 7 =
     Inr (False, decMaxOps (zeroContext ((bufferOf [glyphOf 0 0] {} {})\<lparr>maxOps := 0\<rparr>)))"
proof -
  let ?B = "shapeLimits (bufferOf [glyphOf 0 0] {} {})"
  let ?dg = "\<lambda>b :: Buffer. (1, 1, 1) :: setDigest"
  let ?acc = "[(1, 1, 1), (1, 1, 1)] :: setDigest list"
  let ?lk = "[lookupOf 0, lookupOf 1]"
  let ?st = "\<lparr>pauseFunc = Some (\<lambda>b. (True, b\<lparr>Info := []\<rparr>)), lastLookup = 2\<rparr>"
  let ?c1 = "reset ?dg False (zeroContext ?B) 0 ?B"
  let ?ck = "growString (?c1\<lparr>lookupIndex := 0, lookupMask := 1, autoZWJ := True, autoZWNJ := True,
                              random := False, perSyllable := False\<rparr>) 0"
  have pre: "applyStages growString ?dg ?acc ?lk [] 0 ?c1 = Inr (False, ?c1)" by simp
  have before: "applyLookups growString ?acc ?lk 1 (foldl (\<lambda>j st. max j (lastLookup st)) 0 []) ?c1 =
      Inr (False, 1, ?ck)"
    by (simp add: applyLookups.simps [of _ _ _ _ 0] applyLookups.simps [of _ _ _ _ 1]
        reset_def zeroContext_def shapeLimits_def bufferOf_def lookupOf_def growString_def
        setBits_mayHaveSet_def Let_def)
  have dig: "setDigest_mayHaveDigest (?acc ! unat (lm_index (?lk ! nat 1))) (digest ?ck)"
    by (simp add: reset_def zeroContext_def lookupOf_def growString_def setBits_mayHaveSet_def)
  have lim: "maxLen (ctxBuffer ?ck) < int (length (Info (ctxBuffer ?ck)))"
    by (simp add: reset_def zeroContext_def shapeLimits_def bufferOf_def growString_def)
  have rng: "unat (lm_index (?lk ! nat 1)) < length ?acc" by (simp add: lookupOf_def)
  have k: "foldl (\<lambda>j st. max j (lastLookup st)) 0 [] \<le> (1 :: int)" "1 < lastLookup ?st"
    "0 \<le> (1 :: int)" "1 < int (length ?lk)"
    by simp_all
  have "\<exists>c2. otMap_apply growString ?dg False ?acc 0 ?lk ([] @ ?st # [?st])
        (zeroContext ?B) ?B = Inr (True, c2) \<and> ctxBuffer c2 = ctxBuffer ?ck"
    by (rule otMap_apply_limit_keeps_buffer [where applyString = growString and bufferDigest = ?dg
      and fontHasGlyphClasses = False and accels = ?acc and tableIdx = 0 and lookups = ?lk
      and pre = "[]" and stg = ?st and post = "[?st]" and c = "zeroContext ?B" and buffer = ?B
      and ?c1.0 = ?c1 and k = 1 and ck = ?ck, THEN conjunct2, THEN conjunct1, THEN mp])
      (intro conjI pre before dig lim rng k)
  then obtain c2 where run: "otMap_apply growString ?dg False ?acc 0 ?lk ([] @ ?st # [?st])
        (zeroContext ?B) ?B = Inr (True, c2)"
    and buf: "ctxBuffer c2 = ctxBuffer ?ck"
    by blast
  have info: "Info (ctxBuffer c2) = replicate 16385 (glyphOf 0 0)"
    unfolding buf by (simp add: growString_def)
  from otMap_apply_limit_keeps_buffer [where applyString = growString and bufferDigest = ?dg
      and fontHasGlyphClasses = False and accels = ?acc and tableIdx = 0 and lookups = ?lk
      and stages = "[] @ ?st # [?st]" and c = "zeroContext ?B" and buffer = ?B and c' = c2] run
  have over: "maxLen (ctxBuffer c2) < int (length (Info (ctxBuffer c2)))"
    by blast
  let ?cr = "zeroContext ((bufferOf [glyphOf 0 0] {} {})\<lparr>maxOps := 0\<rparr>)"
  have "maxOps (ctxBuffer ?cr) \<le> 0" by (simp add: zeroContext_def)
  with otMap_apply_limit_keeps_buffer [where cr = ?cr and recurseFn = None and subLookupIndex = 7]
  have rec: "recurse None ?cr 7 = Inr (False, decMaxOps ?cr)"
    by blast
  from run have run': "otMap_apply growString ?dg False ?acc 0 ?lk [?st, ?st]
        (zeroContext ?B) ?B = Inr (True, c2)"
    by simp
  show ?thesis
    by (intro conjI exI [of _ c2] run' info over rec)
qed

section \<open>Merging duplicate features\<close>

lemma global_iff: "(w AND ffGLOBAL \<noteq> 0) = bit w 0"
  using and_exp_eq_0_iff_not_bit [of w 0] by (simp add: ffGLOBAL_def)

lemma fallback_iff: "(w AND ffHasFallback \<noteq> 0) = bit w 1"
  using and_exp_eq_0_iff_not_bit [of w 1] by (simp add: ffHasFallback_def)

lemma bit_ffGLOBAL: "bit ffGLOBAL k = (k = 0)"
  by (auto simp: ffGLOBAL_def bit_1_iff)

lemma bit_ffHasFallback: "bit ffHasFallback k = (k = 1)"
  using bit_exp_iff [where ?'a = "8 word", of 1 k] by (auto simp: ffHasFallback_def)

lemma Tag_mergeDuplicate [simp]: "Tag (mergeDuplicate fj feat) = Tag fj"
  by (simp add: mergeDuplicate_def Let_def)

lemma stage_mergeDuplicate:
  "stage (mergeDuplicate fj feat) =
     (min (fst (stage fj)) (fst (stage feat)), min (snd (stage fj)) (snd (stage feat)))"
  by (simp add: mergeDuplicate_def Let_def)

lemma maxValue_mergeDuplicate:
  "maxValue (mergeDuplicate fj feat) =
     (if flags feat AND ffGLOBAL \<noteq> 0 then maxValue feat else max (maxValue fj) (maxValue feat))"
  by (simp add: mergeDuplicate_def Let_def)

lemma defaultValue_mergeDuplicate:
  "defaultValue (mergeDuplicate fj feat) =
     (if flags feat AND ffGLOBAL \<noteq> 0 then defaultValue feat else defaultValue fj)"
  by (simp add: mergeDuplicate_def Let_def)

lemma bit_flags_mergeDuplicate:
  "bit (flags (mergeDuplicate fj feat)) k =
     (if k = 0 then bit (flags feat) 0
      else if k = 1 then bit (flags fj) 1 \<or> bit (flags feat) 1
      else bit (flags fj) k)"
  by (auto simp: mergeDuplicate_def Let_def global_iff bit_or_iff bit_and_iff bit_xor_iff
      bit_ffGLOBAL bit_ffHasFallback)


lemma Tag_foldl_mergeDuplicate [simp]: "Tag (foldl mergeDuplicate f ds) = Tag f"
  by (induction ds arbitrary: f) simp_all

lemma stage_foldl_mergeDuplicate:
  "fst (stage (foldl mergeDuplicate f ds)) = Min (set (map (fst \<circ> stage) (f # ds))) \<and>
   snd (stage (foldl mergeDuplicate f ds)) = Min (set (map (snd \<circ> stage) (f # ds)))"
proof (induction ds rule: rev_induct)
  case Nil
  then show ?case by simp
next
  case (snoc d ds)
  have "Min (insert (fst (stage d)) (set (map (fst \<circ> stage) (f # ds)))) =
      min (fst (stage d)) (Min (set (map (fst \<circ> stage) (f # ds))))"
    by (rule Min_insert) simp_all
  moreover have "Min (insert (snd (stage d)) (set (map (snd \<circ> stage) (f # ds)))) =
      min (snd (stage d)) (Min (set (map (snd \<circ> stage) (f # ds))))"
    by (rule Min_insert) simp_all
  ultimately show ?case
    using snoc by (simp add: stage_mergeDuplicate min.commute insert_commute)
qed

lemma bit_flags_foldl_mergeDuplicate:
  "bit (flags (foldl mergeDuplicate f ds)) k =
     (if k = 0 then bit (flags (last (f # ds))) 0
      else if k = 1 then (\<exists>d\<in>set (f # ds). bit (flags d) 1)
      else bit (flags f) k)"
proof (induction ds rule: rev_induct)
  case Nil
  then show ?case by simp
next
  case (snoc d ds)
  then show ?case
    by (auto simp: bit_flags_mergeDuplicate)
qed

lemma maxValue_foldl_nonglobal:
  "\<forall>d\<in>set ds. flags d AND ffGLOBAL = 0 \<Longrightarrow>
   maxValue (foldl mergeDuplicate f ds) = Max (set (map maxValue (f # ds))) \<and>
   defaultValue (foldl mergeDuplicate f ds) = defaultValue f"
proof (induction ds rule: rev_induct)
  case Nil
  then show ?case by simp
next
  case (snoc d ds)
  have "Max (insert (maxValue d) (set (map maxValue (f # ds)))) =
      max (maxValue d) (Max (set (map maxValue (f # ds))))"
    by (rule Max_insert) simp_all
  then show ?case
    using snoc
    by (simp add: maxValue_mergeDuplicate defaultValue_mergeDuplicate max.commute insert_commute)
qed

lemma maxValue_foldl_global:
  assumes "ds = pre @ g # suf" "flags g AND ffGLOBAL \<noteq> 0"
    and "\<forall>d\<in>set suf. flags d AND ffGLOBAL = 0"
  shows "maxValue (foldl mergeDuplicate f ds) = Max (set (map maxValue (g # suf))) \<and>
   defaultValue (foldl mergeDuplicate f ds) = defaultValue g"
proof -
  let ?x = "mergeDuplicate (foldl mergeDuplicate f pre) g"
  have "foldl mergeDuplicate f ds = foldl mergeDuplicate ?x suf"
    by (simp add: assms(1))
  moreover have "maxValue ?x = maxValue g" "defaultValue ?x = defaultValue g"
    using assms(2) by (simp_all add: maxValue_mergeDuplicate defaultValue_mergeDuplicate)
  ultimately show ?thesis
    using maxValue_foldl_nonglobal [OF assms(3), of ?x] by simp
qed

lemma filter_mergeFrom:
  "sorted (map Tag (cur # rest)) \<Longrightarrow>
   filter (\<lambda>r. Tag r = t) (mergeFrom cur rest) =
     (case filter (\<lambda>f. Tag f = t) (cur # rest) of
        [] \<Rightarrow> []
      | f # ds \<Rightarrow> [foldl mergeDuplicate f ds])"
proof (induction rest arbitrary: cur)
  case Nil
  then show ?case by simp
next
  case (Cons feat rest)
  show ?case
  proof (cases "Tag feat = Tag cur")
    case True
    have "sorted (map Tag (mergeDuplicate cur feat # rest))"
      using Cons.prems by simp
    from Cons.IH [OF this] show ?thesis
      using True by simp
  next
    case False
    have sorted': "sorted (map Tag (feat # rest))"
      using Cons.prems by simp
    show ?thesis
    proof (cases "t = Tag cur")
      case t: True
      have "Tag cur < Tag feat" using Cons.prems False by auto
      moreover have "\<forall>x\<in>set rest. Tag feat \<le> Tag x" using Cons.prems by auto
      ultimately have "filter (\<lambda>f. Tag f = t) (feat # rest) = []"
        using t by (auto simp: filter_empty_conv)
      then show ?thesis
        using Cons.IH [OF sorted'] False t by simp
    next
      case t: False
      then show ?thesis
        using Cons.IH [OF sorted'] False by simp
    qed
  qed
qed

lemma sorted_mergeFrom:
  "sorted (map Tag (cur # rest)) \<Longrightarrow> sorted (map Tag (mergeFrom cur rest)) \<and>
     set (map Tag (mergeFrom cur rest)) = set (map Tag (cur # rest))"
proof (induction rest arbitrary: cur)
  case Nil
  then show ?case by simp
next
  case (Cons feat rest)
  show ?case
  proof (cases "Tag feat = Tag cur")
    case True
    have "sorted (map Tag (mergeDuplicate cur feat # rest))"
      using Cons.prems by simp
    from Cons.IH [OF this] show ?thesis
      using True by auto
  next
    case False
    have sorted': "sorted (map Tag (feat # rest))"
      using Cons.prems by simp
    from Cons.IH [OF sorted'] show ?thesis
      using False Cons.prems by auto
  qed
qed

lemma filter_mergeFeatureInfos:
  "filter (\<lambda>r. Tag r = t) (mergeFeatureInfos infos) =
     (case filter (\<lambda>f. Tag f = t) infos of
        [] \<Rightarrow> []
      | f # ds \<Rightarrow> [foldl mergeDuplicate f ds])"
proof (cases "sort_key Tag infos")
  case Nil
  then have "infos = []" by (metis length_sort list.size(3) length_0_conv)
  then show ?thesis by (simp add: mergeFeatureInfos_def)
next
  case (Cons f fs)
  have "sorted (map Tag (f # fs))"
    using sorted_sort_key [of Tag infos] Cons by simp
  from filter_mergeFrom [OF this, of t]
  have "filter (\<lambda>r. Tag r = t) (mergeFrom f fs) =
     (case filter (\<lambda>f. Tag f = t) (sort_key Tag infos) of
        [] \<Rightarrow> []
      | f # ds \<Rightarrow> [foldl mergeDuplicate f ds])"
    by (simp add: Cons)
  moreover have "filter (\<lambda>f. Tag f = t) (sort_key Tag infos) = filter (\<lambda>f. Tag f = t) infos"
    using sort_key_stable [of Tag t infos] by (simp add: eq_commute)
  moreover have "infos \<noteq> []" using Cons by auto
  ultimately show ?thesis
    by (simp add: mergeFeatureInfos_def Cons)
qed

lemma sorted_mergeFeatureInfos:
  "sorted (map Tag (mergeFeatureInfos infos))"
proof (cases "sort_key Tag infos")
  case Nil
  then have "infos = []" by (metis length_sort list.size(3) length_0_conv)
  then show ?thesis by (simp add: mergeFeatureInfos_def)
next
  case (Cons f fs)
  have "sorted (map Tag (f # fs))"
    using sorted_sort_key [of Tag infos] Cons by simp
  from sorted_mergeFrom [OF this] show ?thesis
    using Cons by (auto simp: mergeFeatureInfos_def)
qed

text \<open>
  Claim C4, as amended. Compilation sorts the features stably by tag and merges the
  duplicates of a tag, in the order in which they were added, into one record (the output is
  sorted by tag and has exactly one record per tag). For the duplicates \<open>f # ds\<close> of a tag, the
  merged record carries the minimum stage per table (GSUB and GPOS separately); the flag
  \<open>HasFallback\<close> if any duplicate has it; the flag \<open>GLOBAL\<close> exactly if the last duplicate is
  global; and the other flags of the first duplicate only. A global duplicate overrides the
  \<open>maxValue\<close> and \<open>defaultValue\<close> merged so far, a non-global one takes the maximum: so
  \<open>maxValue\<close> is the maximum over the last global duplicate after the first and the duplicates
  that follow it, or over all duplicates when none after the first is global.
\<close>

theorem mergeFeatureInfos_merged_record:
  assumes grp: "filter (\<lambda>f. Tag f = t) infos = f # ds"
  shows "\<exists>r. filter (\<lambda>r. Tag r = t) (mergeFeatureInfos infos) = [r] \<and>
      r = foldl mergeDuplicate f ds \<and>
      sorted (map Tag (mergeFeatureInfos infos)) \<and>
      fst (stage r) = Min (set (map (fst \<circ> stage) (f # ds))) \<and>
      snd (stage r) = Min (set (map (snd \<circ> stage) (f # ds))) \<and>
      (flags r AND ffHasFallback \<noteq> 0) = (\<exists>d\<in>set (f # ds). flags d AND ffHasFallback \<noteq> 0) \<and>
      (flags r AND ffGLOBAL \<noteq> 0) = (flags (last (f # ds)) AND ffGLOBAL \<noteq> 0) \<and>
      flags r AND NOT (ffGLOBAL OR ffHasFallback) = flags f AND NOT (ffGLOBAL OR ffHasFallback) \<and>
      ((\<forall>d\<in>set ds. flags d AND ffGLOBAL = 0) \<longrightarrow>
         maxValue r = Max (set (map maxValue (f # ds))) \<and> defaultValue r = defaultValue f) \<and>
      (\<forall>pre g suf. ds = pre @ g # suf \<and> flags g AND ffGLOBAL \<noteq> 0 \<and>
           (\<forall>d\<in>set suf. flags d AND ffGLOBAL = 0) \<longrightarrow>
         maxValue r = Max (set (map maxValue (g # suf))) \<and> defaultValue r = defaultValue g)"
proof -
  let ?r = "foldl mergeDuplicate f ds"
  have 1: "filter (\<lambda>r. Tag r = t) (mergeFeatureInfos infos) = [?r]"
    by (simp add: filter_mergeFeatureInfos grp)
  have 2: "sorted (map Tag (mergeFeatureInfos infos))"
    by (rule sorted_mergeFeatureInfos)
  note 3 = stage_foldl_mergeDuplicate [of f ds]
  have 4: "(flags ?r AND ffHasFallback \<noteq> 0) = (\<exists>d\<in>set (f # ds). flags d AND ffHasFallback \<noteq> 0)"
    unfolding fallback_iff by (simp add: bit_flags_foldl_mergeDuplicate)
  have 5: "(flags ?r AND ffGLOBAL \<noteq> 0) = (flags (last (f # ds)) AND ffGLOBAL \<noteq> 0)"
    unfolding global_iff by (simp add: bit_flags_foldl_mergeDuplicate)
  have 6: "flags ?r AND NOT (ffGLOBAL OR ffHasFallback) = flags f AND NOT (ffGLOBAL OR ffHasFallback)"
    by (rule bit_eqI)
      (auto simp: bit_and_iff bit_not_iff bit_or_iff bit_ffGLOBAL bit_ffHasFallback
        bit_flags_foldl_mergeDuplicate)
  have 7: "maxValue ?r = Max (set (map maxValue (f # ds))) \<and> defaultValue ?r = defaultValue f"
    if "\<forall>d\<in>set ds. flags d AND ffGLOBAL = 0"
    using maxValue_foldl_nonglobal [OF that] .
  have 8: "maxValue ?r = Max (set (map maxValue (g # suf))) \<and> defaultValue ?r = defaultValue g"
    if "ds = pre @ g # suf \<and> flags g AND ffGLOBAL \<noteq> 0 \<and> (\<forall>d\<in>set suf. flags d AND ffGLOBAL = 0)"
    for pre g suf
    using maxValue_foldl_global [of ds pre g suf f] that by blast
  show ?thesis
    using 1 2 3 4 5 6 7 8 by blast
qed

lemma merge_liga:
  "mergeFeatureInfos (featureInfos (disableFeature (addFeatureExt emptyBuilder tagLiga ffGLOBAL 1) tagLiga)) =
     [\<lparr>Tag = tagLiga, maxValue = 0, flags = ffGLOBAL, defaultValue = 0, stage = (0, 0)\<rparr>]"
  by (simp add: mergeFeatureInfos_def disableFeature_def addFeatureExt_def emptyBuilder_def
      mergeDuplicate_def ffGLOBAL_def ffHasFallback_def tagLiga_def Let_def)

lemma merge_salt:
  "mergeFeatureInfos (featureInfos (addFeatureExt (addFeatureExt emptyBuilder tagSalt 0 3) tagSalt ffGLOBAL 1)) =
     [\<lparr>Tag = tagSalt, maxValue = 1, flags = ffGLOBAL, defaultValue = 1, stage = (0, 0)\<rparr>]"
  by (simp add: mergeFeatureInfos_def addFeatureExt_def emptyBuilder_def
      mergeDuplicate_def ffGLOBAL_def ffHasFallback_def tagSalt_def Let_def)

lemma merge_salt2:
  "mergeFeatureInfos (featureInfos (addFeatureExt (addFeatureExt emptyBuilder tagSalt (ffGLOBAL OR ffRandom) 1) tagSalt ffManualZWJ 1)) =
     [\<lparr>Tag = tagSalt, maxValue = 1, flags = ffRandom, defaultValue = 1, stage = (0, 0)\<rparr>]"
  by (simp add: mergeFeatureInfos_def addFeatureExt_def emptyBuilder_def
      mergeDuplicate_def ffGLOBAL_def ffHasFallback_def ffRandom_def ffManualZWJ_def tagSalt_def Let_def)

text \<open>
  Claim C4 as stated fails. \<open>liga\<close> enabled (value 1) and then disabled, as the Khmer shaper
  does: the merged \<open>maxValue\<close> is 0, not the maximum 1. A non-global \<open>salt\<close> with value 3
  followed by a global one with value 1: the merged record is global, with \<open>maxValue\<close> 1. A
  global \<open>Random\<close> feature followed by a non-global \<open>ManualZWJ\<close> one: the merged flags are
  \<open>Random\<close> alone, not the OR of the flags without \<open>GLOBAL\<close>.
\<close>

theorem mergeFeatureInfos_not_or_max:
  "map maxValue (featureInfos (disableFeature (addFeatureExt emptyBuilder tagLiga ffGLOBAL 1) tagLiga)) = [1, 0] \<and>
   map maxValue (mergeFeatureInfos
      (featureInfos (disableFeature (addFeatureExt emptyBuilder tagLiga ffGLOBAL 1) tagLiga))) = [0] \<and>
   map flags (featureInfos (addFeatureExt (addFeatureExt emptyBuilder tagSalt 0 3) tagSalt ffGLOBAL 1)) =
      [0, ffGLOBAL] \<and>
   map maxValue (featureInfos (addFeatureExt (addFeatureExt emptyBuilder tagSalt 0 3) tagSalt ffGLOBAL 1)) =
      [3, 1] \<and>
   map flags (mergeFeatureInfos
      (featureInfos (addFeatureExt (addFeatureExt emptyBuilder tagSalt 0 3) tagSalt ffGLOBAL 1))) =
      [ffGLOBAL] \<and>
   map maxValue (mergeFeatureInfos
      (featureInfos (addFeatureExt (addFeatureExt emptyBuilder tagSalt 0 3) tagSalt ffGLOBAL 1))) = [1] \<and>
   map flags (mergeFeatureInfos
      (featureInfos (addFeatureExt (addFeatureExt emptyBuilder tagSalt (ffGLOBAL OR ffRandom) 1)
          tagSalt ffManualZWJ 1))) = [ffRandom] \<and>
   ffRandom \<noteq> (ffGLOBAL OR ffRandom OR ffManualZWJ) AND NOT ffGLOBAL"
  unfolding merge_liga merge_salt merge_salt2
  by (simp add: disableFeature_def addFeatureExt_def emptyBuilder_def ffGLOBAL_def ffRandom_def
      ffManualZWJ_def)

theorem mergeFeatureInfos_merged_record_witness:
  "filter (\<lambda>f. Tag f = tagLiga)
      (featureInfos (disableFeature (addFeatureExt emptyBuilder tagLiga ffGLOBAL 1) tagLiga)) =
     [\<lparr>Tag = tagLiga, maxValue = 1, flags = ffGLOBAL, defaultValue = 1, stage = (0, 0)\<rparr>,
      \<lparr>Tag = tagLiga, maxValue = 0, flags = ffGLOBAL, defaultValue = 0, stage = (0, 0)\<rparr>] \<and>
   map maxValue (filter (\<lambda>r. Tag r = tagLiga) (mergeFeatureInfos
      (featureInfos (disableFeature (addFeatureExt emptyBuilder tagLiga ffGLOBAL 1) tagLiga)))) = [0]"
proof -
  let ?infos = "featureInfos (disableFeature (addFeatureExt emptyBuilder tagLiga ffGLOBAL 1) tagLiga)"
  let ?f = "\<lparr>Tag = tagLiga, maxValue = 1, flags = ffGLOBAL, defaultValue = 1, stage = (0, 0)\<rparr>"
  let ?g = "\<lparr>Tag = tagLiga, maxValue = 0, flags = ffGLOBAL, defaultValue = 0, stage = (0, 0)\<rparr>"
  have grp: "filter (\<lambda>f. Tag f = tagLiga) ?infos = ?f # [?g]"
    by (simp add: disableFeature_def addFeatureExt_def emptyBuilder_def ffGLOBAL_def)
  from mergeFeatureInfos_merged_record [OF grp] obtain r
    where r: "filter (\<lambda>r. Tag r = tagLiga) (mergeFeatureInfos ?infos) = [r]"
      and m: "\<forall>pre g suf. [?g] = pre @ g # suf \<and> flags g AND ffGLOBAL \<noteq> 0 \<and>
           (\<forall>d\<in>set suf. flags d AND ffGLOBAL = 0) \<longrightarrow>
         maxValue r = Max (set (map maxValue (g # suf))) \<and> defaultValue r = defaultValue g"
    by blast
  have "[?g] = [] @ ?g # [] \<and> flags ?g AND ffGLOBAL \<noteq> 0 \<and> (\<forall>d\<in>set []. flags d AND ffGLOBAL = 0)"
    by (simp add: ffGLOBAL_def)
  with m have "maxValue r = Max (set (map maxValue (?g # [])))" by blast
  then have "maxValue r = 0" by simp
  with r grp show ?thesis by simp
qed

section \<open>Allocation of the mask bits\<close>

lemma OnesCount32_defined: "OnesCount32 glyphFlagDefined = 3"
  by (simp add: OnesCount32_def glyphFlagDefined_def GlyphUnsafeToBreak_def GlyphUnsafeToConcat_def
      GlyphSafeToInsertTatweel_def upt_rec [of _ "numeral n" for n] bit_numeral_word_iff)

lemma bitLength_pos: "0 < n \<Longrightarrow> 0 < bitLength n"
  by (subst bitLength.simps) simp

lemma field_mask:
  "(push_bit (s + n) 1 - push_bit s 1 :: 32 word) = push_bit s (mask n)"
  by (simp add: push_bit_eq_mult mask_eq_exp_minus_1 algebra_simps power_add)

lemma bit_field: "bit (push_bit s (mask n) :: 32 word) k = (s \<le> k \<and> k < s + n \<and> k < 32)"
  by (auto simp: bit_push_bit_iff bit_mask_iff)

lemma bit_globalBitMask: "bit globalBitMask k = (k = 31)"
  using bit_exp_iff [where ?'a = "32 word", of 31 k]
  by (auto simp: globalBitMask_def globalBitShift_def push_bit_eq_mult)

lemma globalBitMask_field: "globalBitMask = push_bit globalBitShift (mask 1)"
  by (simp add: globalBitMask_def)


lemma bitsNeeded_bounds:
  "maxValue info \<noteq> 0 \<Longrightarrow>
   1 \<le> min otMapMaxBits (bitStorage (maxValue info)) \<and>
   min otMapMaxBits (bitStorage (maxValue info)) \<le> 8"
proof -
  assume "maxValue info \<noteq> 0"
  then have "0 < unat (maxValue info)" by (simp add: unat_gt_0)
  then have "0 < bitStorage (maxValue info)"
    unfolding bitStorage_def by (rule bitLength_pos)
  then show ?thesis by (simp add: otMapMaxBits_def)
qed

lemma allocFeature_cases:
  assumes "allocFeature font (nb, rs, m) info = st'"
  shows "(\<exists>rs'. st' = (nb, rs', m)) \<or>
    (\<exists>rs' f'. usesGlobalBit info \<and>
        st' = (nb, rs', m\<lparr>features := features m @ [f']\<rparr>) \<and>
        fm_tag f' = Tag info \<and> fm_shift f' = globalBitShift \<and> fm_mask f' = globalBitMask) \<or>
    (\<exists>rs' f' n. \<not> usesGlobalBit info \<and> 1 \<le> n \<and> n \<le> 8 \<and> nb + n < globalBitShift \<and>
        st' = (nb + n, rs', m\<lparr>features := features m @ [f'],
                 globalMask := globalMask m OR (push_bit nb (defaultValue info) AND fm_mask f')\<rparr>) \<and>
        fm_tag f' = Tag info \<and> fm_shift f' = nb \<and> fm_mask f' = push_bit nb (mask n))"
proof -
  obtain rs1 fi found where find: "findFeatureIndices font info rs = (rs1, fi, found)"
    by (cases "findFeatureIndices font info rs") auto
  define n where "n = bitsNeededFor info"
  show ?thesis
  proof (cases "maxValue info = 0 \<or> globalBitShift \<le> nb + n")
    case True
    then have "st' = (nb, rs, m)"
      using assms by (simp add: allocFeature_def Let_def n_def)
    then show ?thesis by blast
  next
    case go: False
    show ?thesis
    proof (cases "\<not> found \<and> flags info AND ffHasFallback = 0")
      case True
      then have "st' = (nb, rs1, m)"
        using assms go by (simp add: allocFeature_def Let_def n_def find)
      then show ?thesis by blast
    next
      case add: False
      show ?thesis
      proof (cases "usesGlobalBit info")
        case True
        let ?f = "newFeatureMap info fi found globalBitShift globalBitMask"
        have "st' = (nb, rs1, m\<lparr>features := features m @ [?f]\<rparr>)"
          using assms go add True by (auto simp: allocFeature_def Let_def n_def find)
        moreover have "fm_tag ?f = Tag info \<and> fm_shift ?f = globalBitShift \<and> fm_mask ?f = globalBitMask"
          by (simp add: newFeatureMap_def)
        ultimately show ?thesis using True by blast
      next
        case False
        let ?msk = "push_bit nb (mask n) :: 32 word"
        let ?f = "newFeatureMap info fi found nb ?msk"
        have fm: "2 ^ (nb + n) - 2 ^ nb = ?msk"
          using field_mask [of nb n] by simp
        have "st' = (nb + n, rs1, m\<lparr>features := features m @ [?f],
                 globalMask := globalMask m OR (push_bit nb (defaultValue info) AND ?msk)\<rparr>)"
          using assms go add False
          by (auto simp: allocFeature_def Let_def n_def [symmetric] find fm)
        moreover have "fm_tag ?f = Tag info \<and> fm_shift ?f = nb \<and> fm_mask ?f = ?msk"
          by (simp add: newFeatureMap_def)
        moreover have "1 \<le> n \<and> n \<le> 8"
          using bitsNeeded_bounds [of info] go False by (simp add: n_def bitsNeededFor_def)
        moreover have "nb + n < globalBitShift" using go by simp
        ultimately show ?thesis using False by force
      qed
    qed
  qed
qed


lemma subset_and_not:
  fixes c gm gm' :: "32 word"
  assumes "c AND NOT gm = 0" and "\<And>k. bit gm k \<Longrightarrow> bit gm' k"
  shows "c AND NOT gm' = 0"
proof (rule bit_eqI)
  fix k
  have "\<not> bit (c AND NOT gm) k" using assms(1) by simp
  then show "bit (c AND NOT gm') k = bit (0 :: 32 word) k"
    using assms(2) [of k] by (auto simp: bit_and_iff bit_not_iff)
qed

lemma okFeature_mono:
  assumes "okFeature infos gm nb f" "nb \<le> nb'" "\<And>k. bit gm k \<Longrightarrow> bit gm' k"
  shows "okFeature infos gm' nb' f"
proof -
  from assms(1) obtain info where info: "info \<in> set infos" "Tag info = fm_tag f"
    and c: "(push_bit (fm_shift f) (defaultValue info) AND fm_mask f) AND NOT gm = 0"
    and d: "fm_shift f = globalBitShift \<and> fm_mask f = globalBitMask \<and> usesGlobalBit info \<or>
         (\<exists>n. 1 \<le> n \<and> n \<le> 8 \<and> 4 \<le> fm_shift f \<and> fm_shift f + n \<le> nb \<and>
              fm_mask f = push_bit (fm_shift f) (mask n))"
    unfolding okFeature_def by blast
  have c': "(push_bit (fm_shift f) (defaultValue info) AND fm_mask f) AND NOT gm' = 0"
    using c assms(3) by (rule subset_and_not)
  have d': "fm_shift f = globalBitShift \<and> fm_mask f = globalBitMask \<and> usesGlobalBit info \<or>
         (\<exists>n. 1 \<le> n \<and> n \<le> 8 \<and> 4 \<le> fm_shift f \<and> fm_shift f + n \<le> nb' \<and>
              fm_mask f = push_bit (fm_shift f) (mask n))"
    using d assms(2) by (meson le_trans)
  show ?thesis
    unfolding okFeature_def using info c' d' by (intro bexI [of _ info]) simp_all
qed

lemma field_disjoint:
  "s + n \<le> s' \<Longrightarrow> (push_bit s (mask n) :: 32 word) AND push_bit s' (mask n') = 0"
  by (rule bit_eqI) (auto simp: bit_and_iff bit_field)

lemma field_disjoint_global:
  "s + n < globalBitShift \<Longrightarrow> (push_bit s (mask n) :: 32 word) AND globalBitMask = 0"
  by (rule bit_eqI) (auto simp: bit_and_iff bit_field bit_globalBitMask globalBitShift_def)

lemma okFeature_disjoint_new:
  assumes "okFeature infos gm nb f" "nb + n < globalBitShift"
  shows "fm_mask f AND push_bit nb (mask n) = 0"
proof -
  from assms(1) consider "fm_mask f = globalBitMask"
    | n' where "fm_shift f + n' \<le> nb" "fm_mask f = push_bit (fm_shift f) (mask n')"
    unfolding okFeature_def by blast
  then show ?thesis
  proof cases
    case 1
    then show ?thesis
      using field_disjoint_global [OF assms(2)] by (simp add: and.commute)
  next
    case 2
    then show ?thesis by (simp add: field_disjoint)
  qed
qed

lemma okFeature_disjoint_global:
  assumes "okFeature infos gm nb f" "nb < globalBitShift" "fm_shift f \<noteq> globalBitShift"
  shows "fm_mask f AND globalBitMask = 0"
proof -
  from assms(1,3) obtain n' where "fm_shift f + n' \<le> nb" "fm_mask f = push_bit (fm_shift f) (mask n')"
    unfolding okFeature_def by blast
  then show ?thesis
    using assms(2) by (simp add: field_disjoint_global)
qed

lemma allocFeature_inv:
  assumes inv: "allocInv infos st" and mem: "info \<in> set infos"
  shows "allocInv infos (allocFeature font st info)"
proof -
  obtain nb rs m where st: "st = (nb, rs, m)" by (cases st) auto
  from inv have nb: "4 \<le> nb" "nb < globalBitShift"
    and top: "bit (globalMask m) globalBitShift"
    and ok: "\<And>f. f \<in> set (features m) \<Longrightarrow> okFeature infos (globalMask m) nb f"
    and dis: "\<And>i j. i < length (features m) \<Longrightarrow> j < length (features m) \<Longrightarrow> i \<noteq> j \<Longrightarrow>
        fm_shift (features m ! i) \<noteq> globalBitShift \<Longrightarrow>
        fm_mask (features m ! i) AND fm_mask (features m ! j) = 0"
    unfolding allocInv_def st by auto
  let ?fs = "features m"
  from allocFeature_cases [OF refl, of font nb rs m info]
  consider rs' where "allocFeature font st info = (nb, rs', m)"
    | rs' f' where "usesGlobalBit info"
        "allocFeature font st info = (nb, rs', m\<lparr>features := ?fs @ [f']\<rparr>)"
        "fm_tag f' = Tag info" "fm_shift f' = globalBitShift" "fm_mask f' = globalBitMask"
    | rs' f' n where "\<not> usesGlobalBit info" "1 \<le> n" "n \<le> 8" "nb + n < globalBitShift"
        "allocFeature font st info = (nb + n, rs', m\<lparr>features := ?fs @ [f'],
                 globalMask := globalMask m OR (push_bit nb (defaultValue info) AND fm_mask f')\<rparr>)"
        "fm_tag f' = Tag info" "fm_shift f' = nb" "fm_mask f' = push_bit nb (mask n)"
    unfolding st by blast
  then show ?thesis
  proof cases
    case 1
    then show ?thesis using inv by (simp add: allocInv_def st)
  next
    case 2
    have okf': "okFeature infos (globalMask m) nb f'"
    proof -
      have "(push_bit (fm_shift f') (defaultValue info) AND fm_mask f') AND NOT (globalMask m) = 0"
        by (rule bit_eqI) (use top in \<open>auto simp: 2(5) bit_and_iff bit_not_iff bit_globalBitMask globalBitShift_def\<close>)
      then show ?thesis
        unfolding okFeature_def using mem 2 by (intro bexI [of _ info]) simp_all
    qed
    have ok': "okFeature infos (globalMask m) nb f" if "f \<in> set (?fs @ [f'])" for f
      using that ok okf' by auto
    have dis': "fm_mask ((?fs @ [f']) ! i) AND fm_mask ((?fs @ [f']) ! j) = 0"
      if "i < length (?fs @ [f'])" "j < length (?fs @ [f'])" "i \<noteq> j"
        "fm_shift ((?fs @ [f']) ! i) \<noteq> globalBitShift" for i j
    proof -
      have i: "i < length ?fs" using that(1,4) 2(4) by (cases "i = length ?fs") (auto simp: nth_append)
      have ii: "(?fs @ [f']) ! i = ?fs ! i" using i by (simp add: nth_append)
      show ?thesis
      proof (cases "j < length ?fs")
        case True
        then have jj: "(?fs @ [f']) ! j = ?fs ! j" by (simp add: nth_append)
        show ?thesis unfolding ii jj using dis [OF i True that(3)] that(4) [unfolded ii] by simp
      next
        case False
        then have j: "(?fs @ [f']) ! j = f'" using that(2) by (simp add: nth_append)
        have "okFeature infos (globalMask m) nb (?fs ! i)" using ok i by simp
        from okFeature_disjoint_global [OF this nb(2)] show ?thesis
          unfolding ii j 2(5) using that(4) [unfolded ii] by simp
      qed
    qed
    show ?thesis
      unfolding 2(2) allocInv_def using nb top ok' dis' by simp
  next
    case 3
    let ?gm' = "globalMask m OR (push_bit nb (defaultValue info) AND fm_mask f')"
    have sub: "bit ?gm' k" if "bit (globalMask m) k" for k
      using that by (simp add: bit_or_iff)
    have okf': "okFeature infos ?gm' (nb + n) f'"
    proof -
      have "(push_bit (fm_shift f') (defaultValue info) AND fm_mask f') AND NOT ?gm' = 0"
        by (rule bit_eqI) (auto simp: 3(7) bit_and_iff bit_not_iff bit_or_iff)
      moreover have "\<exists>n'. 1 \<le> n' \<and> n' \<le> 8 \<and> 4 \<le> fm_shift f' \<and> fm_shift f' + n' \<le> nb + n \<and>
              fm_mask f' = push_bit (fm_shift f') (mask n')"
        using 3 nb by auto
      ultimately show ?thesis
        unfolding okFeature_def using mem 3(6) by (intro bexI [of _ info]) simp_all
    qed
    have ok': "okFeature infos ?gm' (nb + n) f" if "f \<in> set (?fs @ [f'])" for f
    proof (cases "f = f'")
      case True
      then show ?thesis using okf' by simp
    next
      case False
      then have "f \<in> set ?fs" using that by simp
      from okFeature_mono [OF ok [OF this], of "nb + n" ?gm'] sub show ?thesis by simp
    qed
    have dis': "fm_mask ((?fs @ [f']) ! i) AND fm_mask ((?fs @ [f']) ! j) = 0"
      if "i < length (?fs @ [f'])" "j < length (?fs @ [f'])" "i \<noteq> j"
        "fm_shift ((?fs @ [f']) ! i) \<noteq> globalBitShift" for i j
    proof (cases "i < length ?fs")
      case i: True
      have ii: "(?fs @ [f']) ! i = ?fs ! i" using i by (simp add: nth_append)
      show ?thesis
      proof (cases "j < length ?fs")
        case True
        then have jj: "(?fs @ [f']) ! j = ?fs ! j" by (simp add: nth_append)
        show ?thesis unfolding ii jj using dis [OF i True that(3)] that(4) [unfolded ii] by simp
      next
        case False
        then have j: "(?fs @ [f']) ! j = f'" using that(2) by (simp add: nth_append)
        have "okFeature infos (globalMask m) nb (?fs ! i)" using ok i by simp
        from okFeature_disjoint_new [OF this 3(4)] show ?thesis
          unfolding ii j 3(8) by simp
      qed
    next
      case False
      then have i: "(?fs @ [f']) ! i = f'" using that(1) by (simp add: nth_append)
      have j: "j < length ?fs" using that(1,2,3) False by simp
      have jj: "(?fs @ [f']) ! j = ?fs ! j" using j by (simp add: nth_append)
      have "okFeature infos (globalMask m) nb (?fs ! j)" using ok j by simp
      from okFeature_disjoint_new [OF this 3(4)] show ?thesis
        unfolding i jj 3(8) by (simp add: and.commute)
    qed
    have top': "bit ?gm' globalBitShift" using top by (rule sub)
    show ?thesis
      unfolding 3(5) allocInv_def using nb 3(4) top' ok' dis' by simp
  qed
qed


lemma foldl_allocInv:
  "allocInv infos st \<Longrightarrow> set xs \<subseteq> set infos \<Longrightarrow>
   allocInv infos (foldl (allocFeature font) st xs)"
  by (induction xs arbitrary: st) (simp_all add: allocFeature_inv)

lemma compileFeatures_inv:
  "allocInv (mergeFeatureInfos infos) (compileFeatures font infos)"
  unfolding compileFeatures_def
proof (rule foldl_allocInv)
  show "allocInv (mergeFeatureInfos infos)
      (OnesCount32 glyphFlagDefined + 1, (0, 0), \<lparr>features = [], globalMask = globalBitMask\<rparr>)"
    by (simp add: allocInv_def OnesCount32_defined globalBitShift_def bit_globalBitMask)
qed simp

text \<open>
  Claim C5. In the map that \<open>compile\<close> builds, for any font and any features: the mask of
  every feature is a field of at most 8 bits at the feature's shift; the global bit, bit 31, is
  set in \<open>globalMask\<close>, and a feature whose mask has it has the global bit as its whole mask
  and comes from a global feature with \<open>maxValue\<close> 1; the mask of a feature that allocates
  its own bits (its shift is not 31) is disjoint from the mask of every other feature; and for
  every feature the default value shifted by the feature's shift and masked by its mask lies
  inside \<open>globalMask\<close>.
\<close>

theorem compile_mask_bits:
  fixes font infos
  defines "m \<equiv> compiledMap font infos"
  shows "(\<forall>f\<in>set (features m). \<exists>n\<le>8. fm_mask f = push_bit (fm_shift f) (mask n)) \<and>
    globalMask m AND globalBitMask \<noteq> 0 \<and>
    (\<forall>f\<in>set (features m). fm_mask f AND globalBitMask \<noteq> 0 \<longrightarrow>
        fm_mask f = globalBitMask \<and> fm_shift f = globalBitShift \<and>
        (\<exists>info\<in>set (mergeFeatureInfos infos). Tag info = fm_tag f \<and>
            flags info AND ffGLOBAL \<noteq> 0 \<and> maxValue info = 1)) \<and>
    (\<forall>i<length (features m). \<forall>j<length (features m).
        i \<noteq> j \<and> fm_shift (features m ! i) \<noteq> globalBitShift \<longrightarrow>
        fm_mask (features m ! i) AND fm_mask (features m ! j) = 0) \<and>
    (\<forall>f\<in>set (features m). \<exists>info\<in>set (mergeFeatureInfos infos). Tag info = fm_tag f \<and>
        (push_bit (fm_shift f) (defaultValue info) AND fm_mask f) AND NOT (globalMask m) = 0)"
proof -
  obtain nb rs where st: "compileFeatures font infos = (nb, rs, m)"
    unfolding m_def compiledMap_def by (cases "compileFeatures font infos") auto
  from compileFeatures_inv [of infos font]
  have nb: "nb < globalBitShift"
    and top: "bit (globalMask m) globalBitShift"
    and ok: "\<And>f. f \<in> set (features m) \<Longrightarrow> okFeature (mergeFeatureInfos infos) (globalMask m) nb f"
    and dis: "\<forall>i<length (features m). \<forall>j<length (features m).
        i \<noteq> j \<and> fm_shift (features m ! i) \<noteq> globalBitShift \<longrightarrow>
        fm_mask (features m ! i) AND fm_mask (features m ! j) = 0"
    unfolding st allocInv_def by auto
  have 1: "\<exists>n\<le>8. fm_mask f = push_bit (fm_shift f) (mask n)" if "f \<in> set (features m)" for f
    using ok [OF that] unfolding okFeature_def
    by (auto simp: globalBitMask_field intro: exI [of _ 1])
  have 2: "globalMask m AND globalBitMask \<noteq> 0"
  proof
    assume "globalMask m AND globalBitMask = 0"
    then have "\<not> bit (globalMask m AND globalBitMask) 31" by simp
    then show False using top by (simp add: bit_and_iff bit_globalBitMask globalBitShift_def)
  qed
  have 3: "fm_mask f = globalBitMask \<and> fm_shift f = globalBitShift \<and>
        (\<exists>info\<in>set (mergeFeatureInfos infos). Tag info = fm_tag f \<and>
            flags info AND ffGLOBAL \<noteq> 0 \<and> maxValue info = 1)"
    if "f \<in> set (features m)" "fm_mask f AND globalBitMask \<noteq> 0" for f
  proof (cases "fm_shift f = globalBitShift")
    case True
    then show ?thesis
      using ok [OF that(1)] nb unfolding okFeature_def usesGlobalBit_def by auto
  next
    case False
    from okFeature_disjoint_global [OF ok [OF that(1)] nb False] that(2)
    show ?thesis by simp
  qed
  have 5: "\<exists>info\<in>set (mergeFeatureInfos infos). Tag info = fm_tag f \<and>
        (push_bit (fm_shift f) (defaultValue info) AND fm_mask f) AND NOT (globalMask m) = 0"
    if "f \<in> set (features m)" for f
    using ok [OF that] unfolding okFeature_def by blast
  show ?thesis
    using 1 2 3 dis 5 by blast
qed

lemma compiled_example:
  "features (compiledMap fontWithAll
      (featureInfos (addFeatureExt (enableFeature emptyBuilder tagLiga) tagSalt 0 3))) =
     [newFeatureMap \<lparr>Tag = tagLiga, maxValue = 1, flags = ffGLOBAL, defaultValue = 1, stage = (0, 0)\<rparr>
        (0, 0) True 31 0x80000000,
      newFeatureMap \<lparr>Tag = tagSalt, maxValue = 3, flags = 0, defaultValue = 0, stage = (0, 0)\<rparr>
        (0, 0) True 4 0x30]"
  by (simp add: compiledMap_def compileFeatures_def OnesCount32_defined mergeFeatureInfos_def
      enableFeature_def enableFeatureExt_def addFeatureExt_def emptyBuilder_def tagLiga_def
      tagSalt_def allocFeature_def bitsNeededFor_def usesGlobalBit_def findFeatureIndices_def
      fontWithAll_def NoFeatureIndex_def otMapMaxBits_def bitStorage_def globalBitShift_def
      globalBitMask_def ffGLOBAL_def ffHasFallback_def ffGlobalSearch_def Let_def)

theorem compile_mask_bits_witness:
  "map fm_mask (features (compiledMap fontWithAll
      (featureInfos (addFeatureExt (enableFeature emptyBuilder tagLiga) tagSalt 0 3)))) =
     [0x80000000, 0x30] \<and>
   fm_mask (features (compiledMap fontWithAll
      (featureInfos (addFeatureExt (enableFeature emptyBuilder tagLiga) tagSalt 0 3))) ! 1) AND
   fm_mask (features (compiledMap fontWithAll
      (featureInfos (addFeatureExt (enableFeature emptyBuilder tagLiga) tagSalt 0 3))) ! 0) = 0"
proof -
  let ?m = "compiledMap fontWithAll
      (featureInfos (addFeatureExt (enableFeature emptyBuilder tagLiga) tagSalt 0 3))"
  have len: "1 < length (features ?m)" "0 < length (features ?m)"
    by (simp_all add: compiled_example)
  have sh: "fm_shift (features ?m ! 1) \<noteq> globalBitShift"
    by (simp add: compiled_example newFeatureMap_def globalBitShift_def)
  from compile_mask_bits [of fontWithAll
      "featureInfos (addFeatureExt (enableFeature emptyBuilder tagLiga) tagSalt 0 3)"]
  have "\<forall>i<length (features ?m). \<forall>j<length (features ?m).
        i \<noteq> j \<and> fm_shift (features ?m ! i) \<noteq> globalBitShift \<longrightarrow>
        fm_mask (features ?m ! i) AND fm_mask (features ?m ! j) = 0"
    by blast
  with len sh have "fm_mask (features ?m ! 1) AND fm_mask (features ?m ! 0) = 0"
    by (metis zero_neq_one)
  moreover have "map fm_mask (features ?m) = [0x80000000, 0x30]"
    by (simp add: compiled_example newFeatureMap_def)
  ultimately show ?thesis by simp
qed

section \<open>Khmer: reordering a consonant syllable\<close>

lemma length_updRange_aux: "length (foldl (\<lambda>ys j. ys[j := f (ys ! j)]) xs js) = length xs"
  by (induction js arbitrary: xs) simp_all

lemma length_updRange [simp]: "length (updRange f a b xs) = length xs"
  by (simp add: updRange_def length_updRange_aux)

lemma nth_updRange_aux:
  "distinct js \<Longrightarrow> k < length xs \<Longrightarrow>
   foldl (\<lambda>ys j. ys[j := f (ys ! j)]) xs js ! k = (if k \<in> set js then f (xs ! k) else xs ! k)"
proof (induction js arbitrary: xs)
  case Nil
  then show ?case by simp
next
  case (Cons j js)
  let ?xs = "xs[j := f (xs ! j)]"
  have k: "k < length ?xs" using Cons.prems by simp
  have d: "distinct js" using Cons.prems by simp
  have "foldl (\<lambda>ys j. ys[j := f (ys ! j)]) ?xs js ! k =
      (if k \<in> set js then f (?xs ! k) else ?xs ! k)"
    using d k by (rule Cons.IH)
  then show ?case
    using Cons.prems by (cases "k = j") (auto simp: nth_list_update)
qed

lemma nth_updRange:
  "k < length xs \<Longrightarrow> updRange f a b xs ! k = (if a \<le> k \<and> k < b then f (xs ! k) else xs ! k)"
  by (simp add: updRange_def nth_updRange_aux)

lemma updRange_id: "(\<And>x. f x = x) \<Longrightarrow> updRange f a b xs = xs"
  by (rule nth_equalityI) (simp_all add: nth_updRange)

lemma orMask_zero [simp]: "orMask 0 g = g"
  by (simp add: orMask_def)

lemma orMask_fields [simp]:
  "Glyph (orMask m g) = Glyph g" "Cluster (orMask m g) = Cluster g"
  "complexCategory (orMask m g) = complexCategory g" "Mask (orMask m g) = Mask g OR m"
  by (simp_all add: orMask_def)

lemma setCluster_fields [simp]:
  "Glyph (setCluster g c m) = Glyph g" "Cluster (setCluster g c m) = c"
  "complexCategory (setCluster g c m) = complexCategory g"
  by (simp_all add: setCluster_def)

lemma Mask_setCluster_zero:
  "Mask (setCluster g c 0) AND NOT glyphFlagDefined = Mask g AND NOT glyphFlagDefined"
  by (simp add: setCluster_def and.assoc)

lemma length_mergeClusters [simp]: "length (mergeClusters info a b) = length info"
  by (simp add: mergeClusters_def)

lemma nth_mergeClusters:
  "k < length info \<Longrightarrow> 2 \<le> b - a \<Longrightarrow>
   mergeClusters info a b ! k =
     (if a \<le> k \<and> k < b then setCluster (info ! k) (minCluster info a b) 0 else info ! k)"
  by (simp add: mergeClusters_def nth_updRange)

lemma minCluster_cong:
  assumes "a < b" and "\<And>j. j < b \<Longrightarrow> Cluster (info' ! j) = Cluster (info ! j)"
  shows "minCluster info' a b = minCluster info a b"
  unfolding minCluster_def
  by (rule foldl_cong) (use assms in auto)

lemma length_moveToStart:
  "start \<le> i \<Longrightarrow> i + n \<le> length xs \<Longrightarrow> length (moveToStart n xs start i) = length xs"
  by (simp add: moveToStart_def)

lemma nth_moveToStart:
  assumes "start \<le> i" "i + n \<le> length xs" "k < length xs"
  shows "moveToStart n xs start i ! k =
     (if k < start then xs ! k
      else if k < start + n then xs ! (i + (k - start))
      else if k < i + n then xs ! (k - n)
      else xs ! k)"
proof -
  let ?A = "take start xs" and ?B = "take n (drop i xs)"
  let ?C = "take (i - start) (drop start xs)" and ?D = "drop (i + n) xs"
  have lA: "length ?A = start" and lB: "length ?B = n" and lC: "length ?C = i - start"
    using assms by simp_all
  have eq: "moveToStart n xs start i = ?A @ ?B @ ?C @ ?D"
    by (simp add: moveToStart_def)
  consider "k < start" | "start \<le> k" "k < start + n" | "start + n \<le> k" "k < i + n" | "i + n \<le> k"
    by linarith
  then show ?thesis
  proof cases
    case 1
    then show ?thesis unfolding eq using assms by (simp add: nth_append)
  next
    case 2
    then have lt: "k - start < n" by linarith
    have "(?A @ ?B @ ?C @ ?D) ! k = (?B @ ?C @ ?D) ! (k - start)"
      using 2 by (simp add: nth_append lA del: length_take)
    also have "\<dots> = ?B ! (k - start)"
      using lt by (simp add: nth_append lB del: length_take)
    finally have "(?A @ ?B @ ?C @ ?D) ! k = ?B ! (k - start)" .
    also have "\<dots> = xs ! (i + (k - start))"
      using lt assms by simp
    finally show ?thesis unfolding eq using 2 by simp
  next
    case 3
    then have lt: "k - start - n < i - start" "\<not> k - start < n" "\<not> k < start" by linarith+
    have "(?A @ ?B @ ?C @ ?D) ! k = (?B @ ?C @ ?D) ! (k - start)"
      using lt by (simp add: nth_append lA del: length_take)
    also have "\<dots> = (?C @ ?D) ! (k - start - n)"
      using lt by (simp add: nth_append lB del: length_take)
    also have "\<dots> = ?C ! (k - start - n)"
      using lt by (simp add: nth_append lC del: length_take)
    finally have "(?A @ ?B @ ?C @ ?D) ! k = ?C ! (k - start - n)" .
    also have "\<dots> = xs ! (start + (k - start - n))"
      using lt assms by simp
    also have "start + (k - start - n) = k - n" using 3 by simp
    finally show ?thesis unfolding eq using 3 by simp
  next
    case 4
    then have lt: "\<not> k - start - n < i - start" "\<not> k - start < n" "\<not> k < start"
      using assms by linarith+
    have "(?A @ ?B @ ?C @ ?D) ! k = (?B @ ?C @ ?D) ! (k - start)"
      using lt by (simp add: nth_append lA del: length_take)
    also have "\<dots> = (?C @ ?D) ! (k - start - n)"
      using lt by (simp add: nth_append lB del: length_take)
    also have "\<dots> = ?D ! (k - start - n - (i - start))"
      using lt by (simp add: nth_append lC del: length_take)
    finally have "(?A @ ?B @ ?C @ ?D) ! k = ?D ! (k - start - n - (i - start))" .
    also have "\<dots> = xs ! (i + n + (k - start - n - (i - start)))"
      using 4 assms by simp
    also have "i + n + (k - start - n - (i - start)) = k" using 4 assms by simp
    finally show ?thesis unfolding eq using 4 assms by simp
  qed
qed

lemma reorderLoop_snoc:
  "reorderLoop cats plan start end st (ks @ [i]) =
     reorderStep cats plan start end (reorderLoop cats plan start end st ks) i"
  by (simp add: reorderLoop_def)

lemma length_reorderStep:
  assumes "start \<le> i" "i < end" "end \<le> length info"
  shows "length (fst (reorderStep cats plan start end (info, nc) i)) = length info"
  using assms by (simp add: reorderStep_def Let_def length_moveToStart)

lemma length_reorderLoop:
  assumes "\<forall>k\<in>set ks. start \<le> k \<and> k < end" "end \<le> length info"
  shows "length (fst (reorderLoop cats plan start end (info, nc) ks)) = length info"
  using assms
proof (induction ks arbitrary: info nc)
  case Nil
  then show ?case by (simp add: reorderLoop_def)
next
  case (Cons k ks)
  obtain info1 nc1 where s: "reorderStep cats plan start end (info, nc) k = (info1, nc1)"
    by (cases "reorderStep cats plan start end (info, nc) k")
  have l: "length info1 = length info"
    using length_reorderStep [of start k "end" info cats plan nc] Cons.prems s by simp
  have "reorderLoop cats plan start end (info, nc) (k # ks) =
        reorderLoop cats plan start end (info1, nc1) ks"
    by (simp add: reorderLoop_def s)
  moreover have "length (fst (reorderLoop cats plan start end (info1, nc1) ks)) = length info1"
    using Cons.prems l by (intro Cons.IH) simp_all
  ultimately show ?case using l by simp
qed

lemma length_postBaseMasks [simp]: "length (postBaseMasks plan start end info) = length info"
  by (simp add: postBaseMasks_def)

lemma khmer_inputs [simp]:
  "Info (bufferOf xs opts scratch) = xs"
  by (simp add: bufferOf_def)

lemma clusterMin_minCluster:
  assumes "a < b"
  shows "minCluster info a b = clusterMin info a b"
proof -
  have f: "foldl (\<lambda>c j. min c (f j)) c js = fold min (map f js) c" for f :: "nat \<Rightarrow> int" and c js
    by (induction js arbitrary: c) (simp_all add: min.commute)
  have "{a..<b} = set (a # [Suc a..<b])"
    using assms by (auto simp: upt_rec [of a b])
  then have "(\<lambda>j. Cluster (info ! j)) ` {a..<b} =
      set (Cluster (info ! a) # map (\<lambda>j. Cluster (info ! j)) [Suc a..<b])"
    by simp
  then show ?thesis
    unfolding clusterMin_def minCluster_def f by (simp only: Min.set_eq_fold)
qed

lemma sameGlyph_refl [simp]: "sameGlyph g g"
  by (simp add: sameGlyph_def)

lemma sameGlyph_sym: "sameGlyph g h \<Longrightarrow> sameGlyph h g"
  by (simp add: sameGlyph_def)

lemma sameGlyph_trans: "sameGlyph g h \<Longrightarrow> sameGlyph h k \<Longrightarrow> sameGlyph g k"
  by (simp add: sameGlyph_def)

lemma sameGlyph_orMask [simp]: "sameGlyph g (orMask m h) = sameGlyph g h"
  by (simp add: sameGlyph_def orMask_def)

lemma sameGlyph_setCluster [simp]: "sameGlyph g (setCluster h c m) = sameGlyph g h"
  by (simp add: sameGlyph_def setCluster_def)

lemma sameGlyph_Mask_update [simp]: "sameGlyph g (h\<lparr>Mask := m\<rparr>) = sameGlyph g h"
  by (simp add: sameGlyph_def)

lemma sameGlyph_fields:
  "sameGlyph g h \<Longrightarrow> Glyph h = Glyph g"
  "sameGlyph g h \<Longrightarrow> complexCategory h = complexCategory g"
proof -
  assume "sameGlyph g h"
  then have e: "g\<lparr>Cluster := 0, Mask := 0\<rparr> = h\<lparr>Cluster := 0, Mask := 0\<rparr>"
    by (simp add: sameGlyph_def)
  have "Glyph (g\<lparr>Cluster := 0, Mask := 0\<rparr>) = Glyph (h\<lparr>Cluster := 0, Mask := 0\<rparr>)"
    "complexCategory (g\<lparr>Cluster := 0, Mask := 0\<rparr>) = complexCategory (h\<lparr>Cluster := 0, Mask := 0\<rparr>)"
    by (simp_all only: e)
  then show "Glyph h = Glyph g" "complexCategory h = complexCategory g" by simp_all
qed

lemma tagged_orMask: "tagged m g (orMask m g)"
  by (simp add: tagged_def orMask_def)

lemma tagged_setCluster: "tagged m g (setCluster h c 0) = tagged m g h"
  by (simp add: tagged_def Mask_setCluster_zero)

lemma tagged_zero_refl [simp]: "tagged 0 g g"
  by (simp add: tagged_def)


lemma reorderStep_pair:
  assumes b: "start < i" "i + 1 < end" "end \<le> length info"
    and H: "complexCategory (info ! i) = khmSM_ex_H cats"
    and Ra: "complexCategory (info ! (i + 1)) = khmSM_ex_Ra cats"
    and nc: "nc \<le> 2"
  shows "\<exists>info'. reorderStep cats plan start end (info, nc) i = (info', 2) \<and>
      pairMoved (maskArray plan ! khmerPref) (maskArray plan ! khmerCfar) start i end info info'"
proof -
  let ?pref = "maskArray plan ! khmerPref" and ?cfar = "maskArray plan ! khmerCfar"
  define info1 where "info1 = updRange (orMask ?pref) i (i + 2) info"
  define info2 where "info2 = mergeClusters info1 start (i + 2)"
  define info3 where "info3 = moveToStart 2 info2 start i"
  define info4 where "info4 = updRange (orMask ?cfar) (i + 2) end info3"
  define c where "c = clusterMin info start (i + 2)"
  have step: "reorderStep cats plan start end (info, nc) i = (info4, 2)"
  proof (cases "?cfar = 0")
    case True
    then have "info4 = info3" by (simp add: info4_def updRange_id)
    then show ?thesis
      using H Ra nc b True
      by (simp add: reorderStep_def Let_def info1_def info2_def info3_def)
  next
    case False
    then show ?thesis
      using H Ra nc b
      by (simp add: reorderStep_def Let_def info1_def info2_def info3_def info4_def)
  qed
  have l1: "length info1 = length info" by (simp add: info1_def)
  have l2: "length info2 = length info" by (simp add: info2_def l1)
  have l3: "length info3 = length info"
    using b by (simp add: info3_def length_moveToStart l2)
  have l4: "length info4 = length info" by (simp add: info4_def l3)
  have wide: "2 \<le> i + 2 - start" using b by simp
  have n1: "info1 ! k = (if i \<le> k \<and> k < i + 2 then orMask ?pref (info ! k) else info ! k)"
    if "k < length info" for k
    using that by (simp add: info1_def nth_updRange)
  have "minCluster info1 start (i + 2) = minCluster info start (i + 2)"
    using b by (intro minCluster_cong) (simp_all add: n1)
  then have mc: "minCluster info1 start (i + 2) = c"
    using b by (simp add: c_def clusterMin_minCluster)
  have n2: "info2 ! k =
      (if start \<le> k \<and> k < i + 2 then setCluster (info1 ! k) c 0 else info1 ! k)"
    if "k < length info" for k
    using that wide mc by (simp add: info2_def nth_mergeClusters l1)
  have n3: "info3 ! k =
     (if k < start then info2 ! k
      else if k < start + 2 then info2 ! (i + (k - start))
      else if k < i + 2 then info2 ! (k - 2)
      else info2 ! k)" if "k < length info" for k
    unfolding info3_def using b that by (intro nth_moveToStart) (simp_all add: l2)
  have n4: "info4 ! k = (if i + 2 \<le> k \<and> k < end then orMask ?cfar (info3 ! k) else info3 ! k)"
    if "k < length info" for k
    using that by (simp add: info4_def nth_updRange l3)
  have front: "info4 ! (start + d) = setCluster (orMask ?pref (info ! (i + d))) c 0" if "d < 2" for d
  proof -
    have "info4 ! (start + d) = info3 ! (start + d)" using that b by (simp add: n4)
    also have "\<dots> = info2 ! (i + d)" using that b by (simp add: n3)
    also have "\<dots> = setCluster (info1 ! (i + d)) c 0" using that b by (simp add: n2)
    also have "info1 ! (i + d) = orMask ?pref (info ! (i + d))" using that b by (simp add: n1)
    finally show ?thesis .
  qed
  have shifted: "info4 ! (k + 2) = setCluster (info ! k) c 0" if "start \<le> k" "k < i" for k
  proof -
    have "info4 ! (k + 2) = info3 ! (k + 2)" using that b by (simp add: n4)
    also have "\<dots> = info2 ! k" using that b by (simp add: n3)
    also have "\<dots> = setCluster (info1 ! k) c 0" using that b by (simp add: n2)
    also have "info1 ! k = info ! k" using that b by (simp add: n1)
    finally show ?thesis .
  qed
  have rest: "info4 ! k = orMask ?cfar (info ! k)" if "i + 2 \<le> k" "k < end" for k
  proof -
    have "info4 ! k = orMask ?cfar (info3 ! k)" using that b by (simp add: n4)
    also have "info3 ! k = info2 ! k" using that b by (simp add: n3)
    also have "info2 ! k = info1 ! k" using that b by (simp add: n2)
    also have "info1 ! k = info ! k" using that b by (simp add: n1)
    finally show ?thesis .
  qed
  have outside: "info4 ! k = info ! k" if "k < length info" "k < start \<or> end \<le> k" for k
  proof -
    have "info4 ! k = info3 ! k" using that b by (auto simp: n4)
    also have "info3 ! k = info2 ! k" using that b by (auto simp: n3)
    also have "info2 ! k = info1 ! k" using that b by (auto simp: n2)
    also have "info1 ! k = info ! k" using that b by (auto simp: n1)
    finally show ?thesis .
  qed
  have clusters: "Cluster (info4 ! k) = c" if "start \<le> k" "k < i + 2" for k
  proof (cases "k < start + 2")
    case True
    then have "k = start + (k - start)" "k - start < 2" using that by simp_all
    then show ?thesis using front [of "k - start"] by simp
  next
    case False
    then have "k = (k - 2) + 2" "start \<le> k - 2" "k - 2 < i" using that by simp_all
    then show ?thesis using shifted [of "k - 2"] by simp
  qed
  have m0: "movedGlyph ?pref (info ! i) (info4 ! start)"
    using front [of 0] by (simp add: movedGlyph_def tagged_setCluster tagged_orMask)
  have m1: "movedGlyph ?pref (info ! (i + 1)) (info4 ! (start + 1))"
    using front [of 1] by (simp add: movedGlyph_def tagged_setCluster tagged_orMask)
  have ms: "movedGlyph 0 (info ! k) (info4 ! (k + 2))" if "start \<le> k \<and> k < i" for k
    using shifted [of k] that by (simp add: movedGlyph_def tagged_setCluster)
  have cl: "Cluster (info4 ! k) = clusterMin info start (i + 2)" if "start \<le> k \<and> k < i + 2" for k
    using clusters [of k] that by (simp add: c_def)
  have rs: "info4 ! k = (info ! k)\<lparr>Mask := Mask (info ! k) OR ?cfar\<rparr>"
    if "i + 2 \<le> k \<and> k < end" for k
    using rest [of k] that by (simp add: orMask_def)
  have os: "info4 ! k = info ! k" if "k < length info \<and> (k < start \<or> end \<le> k)" for k
    using outside [of k] that by blast
  have "pairMoved ?pref ?cfar start i end info info4"
    unfolding pairMoved_def
    by (intro conjI allI impI l4 m0 m1 ms cl rs os) blast+
  with step show ?thesis by blast
qed

lemma reorderStep_matra:
  assumes b: "start < i" "i < end" "end \<le> length info"
    and V: "complexCategory (info ! i) = khmSM_ex_VPre cats"
    and ne: "\<not> (complexCategory (info ! i) = khmSM_ex_H cats \<and> nc \<le> 2 \<and> i + 1 < end)"
  shows "\<exists>info'. reorderStep cats plan start end (info, nc) i = (info', nc) \<and>
      matraMoved start i info info'"
proof -
  define c where "c = clusterMin info start (i + 1)"
  define info2 where "info2 = mergeClusters info start (i + 1)"
  define info3 where "info3 = moveToStart 1 info2 start i"
  have step: "reorderStep cats plan start end (info, nc) i = (info3, nc)"
    using V ne by (auto simp: reorderStep_def info2_def info3_def)
  have l2: "length info2 = length info" by (simp add: info2_def)
  have l3: "length info3 = length info"
    using b by (simp add: info3_def length_moveToStart l2)
  have wide: "2 \<le> i + 1 - start" using b by simp
  have mc: "minCluster info start (i + 1) = c"
    using b by (simp add: c_def clusterMin_minCluster)
  have n2: "info2 ! k =
      (if start \<le> k \<and> k < i + 1 then setCluster (info ! k) c 0 else info ! k)"
    if "k < length info" for k
    using that wide mc by (simp add: info2_def nth_mergeClusters)
  have n3: "info3 ! k =
     (if k < start then info2 ! k
      else if k < start + 1 then info2 ! (i + (k - start))
      else if k < i + 1 then info2 ! (k - 1)
      else info2 ! k)" if "k < length info" for k
    unfolding info3_def using b that by (intro nth_moveToStart) (simp_all add: l2)
  have front: "info3 ! start = setCluster (info ! i) c 0"
    using b by (simp add: n3 n2)
  have shifted: "info3 ! (k + 1) = setCluster (info ! k) c 0" if "start \<le> k" "k < i" for k
    using that b by (simp add: n3 n2)
  have outside: "info3 ! k = info ! k" if "k < length info" "k < start \<or> i + 1 \<le> k" for k
    using that b by (auto simp: n3 n2)
  have clusters: "Cluster (info3 ! k) = c" if "start \<le> k" "k < i + 1" for k
  proof (cases "k = start")
    case True
    then show ?thesis by (simp add: front)
  next
    case False
    then have "k = (k - 1) + 1" "start \<le> k - 1" "k - 1 < i" using that by simp_all
    then show ?thesis using shifted [of "k - 1"] by simp
  qed
  have m0: "movedGlyph 0 (info ! i) (info3 ! start)"
    using front by (simp add: movedGlyph_def tagged_setCluster)
  have ms: "movedGlyph 0 (info ! k) (info3 ! (k + 1))" if "start \<le> k \<and> k < i" for k
    using shifted [of k] that by (simp add: movedGlyph_def tagged_setCluster)
  have cl: "Cluster (info3 ! k) = clusterMin info start (i + 1)" if "start \<le> k \<and> k < i + 1" for k
    using clusters [of k] that by (simp add: c_def)
  have os: "info3 ! k = info ! k" if "k < length info \<and> (k < start \<or> i + 1 \<le> k)" for k
    using outside [of k] that by blast
  have "matraMoved start i info info3"
    unfolding matraMoved_def
    by (intro conjI allI impI l3 m0 ms cl os) blast+
  with step show ?thesis by blast
qed

lemma reorderStep_passStep:
  assumes b: "start < i" "i < end" "end \<le> length info"
  shows "passStep cats plan start end i (info, nc) (reorderStep cats plan start end (info, nc) i)"
proof -
  let ?g = "complexCategory (info ! i) = khmSM_ex_H cats \<and> nc \<le> 2 \<and> i + 1 < end"
  consider (pair) "?g" "complexCategory (info ! (i + 1)) = khmSM_ex_Ra cats"
    | (count) "?g" "complexCategory (info ! (i + 1)) \<noteq> khmSM_ex_Ra cats"
    | (matra) "\<not> ?g" "complexCategory (info ! i) = khmSM_ex_VPre cats"
    | (other) "\<not> ?g" "complexCategory (info ! i) \<noteq> khmSM_ex_VPre cats"
    by blast
  then show ?thesis
  proof cases
    case pair
    from reorderStep_pair [of start i "end" info cats nc plan] b pair
    obtain info' where "reorderStep cats plan start end (info, nc) i = (info', 2)"
      "pairMoved (maskArray plan ! khmerPref) (maskArray plan ! khmerCfar) start i end info info'"
      by auto
    then show ?thesis using pair by (simp add: passStep_def)
  next
    case count
    then have "reorderStep cats plan start end (info, nc) i = (info, nc + 1)"
      by (simp add: reorderStep_def)
    then show ?thesis using count by (simp add: passStep_def)
  next
    case matra
    from reorderStep_matra [OF b matra(2) matra(1), of plan]
    obtain info' where "reorderStep cats plan start end (info, nc) i = (info', nc)"
      "matraMoved start i info info'"
      by auto
    then show ?thesis using matra by (auto simp: passStep_def)
  next
    case other
    then have "reorderStep cats plan start end (info, nc) i = (info, nc)"
      by (auto simp: reorderStep_def)
    then show ?thesis using other by (auto simp: passStep_def)
  qed
qed

lemma postBaseMasks_tagged: "postBaseTagged plan start end info (postBaseMasks plan start end info)"
  by (auto simp: postBaseTagged_def postBaseMasks_def nth_updRange orMask_def)

lemma postBaseTagged_category:
  "postBaseTagged plan start end info info0 \<Longrightarrow> k < length info \<Longrightarrow>
   complexCategory (info0 ! k) = complexCategory (info ! k)"
  by (simp add: postBaseTagged_def)

lemma noTrigger_cong:
  assumes "complexCategory (a ! k) = complexCategory (b ! k)"
    and "k + 1 < end \<Longrightarrow> complexCategory (a ! (k + 1)) = complexCategory (b ! (k + 1))"
  shows "noTrigger cats end a k = noTrigger cats end b k"
  using assms by (auto simp: noTrigger_def)

lemma reorderStep_quiet:
  assumes "noTrigger cats end info k"
  shows "reorderStep cats plan start end (info, nc) k =
     (info, if complexCategory (info ! k) = khmSM_ex_H cats \<and> nc \<le> 2 \<and> k + 1 < end
            then nc + 1 else nc)"
  using assms by (auto simp: reorderStep_def noTrigger_def)

lemma reorderLoop_quiet:
  assumes "\<forall>k\<in>set ks. noTrigger cats end info k"
  shows "\<exists>nc'. reorderLoop cats plan start end (info, nc) ks = (info, nc') \<and> nc \<le> nc' \<and>
      nc' \<le> nc + int (length (filter (\<lambda>k. complexCategory (info ! k) = khmSM_ex_H cats) ks))"
  using assms
proof (induction ks arbitrary: nc)
  case Nil
  then show ?case by (simp add: reorderLoop_def)
next
  case (Cons k ks)
  let ?nc1 = "if complexCategory (info ! k) = khmSM_ex_H cats \<and> nc \<le> 2 \<and> k + 1 < end
            then nc + 1 else nc"
  have s: "reorderStep cats plan start end (info, nc) k = (info, ?nc1)"
    using Cons.prems by (intro reorderStep_quiet) simp
  have l: "reorderLoop cats plan start end (info, nc) (k # ks) =
      reorderLoop cats plan start end (info, ?nc1) ks"
    by (simp only: reorderLoop_def foldl_Cons s)
  from Cons.IH [of ?nc1] Cons.prems obtain nc' where
    r: "reorderLoop cats plan start end (info, ?nc1) ks = (info, nc')"
    and lo: "?nc1 \<le> nc'"
    and hi: "nc' \<le> ?nc1 + int (length (filter (\<lambda>k. complexCategory (info ! k) = khmSM_ex_H cats) ks))"
    by auto
  have "nc \<le> nc'" using lo by (simp split: if_splits)
  moreover have "nc' \<le> nc + int (length (filter (\<lambda>k. complexCategory (info ! k) = khmSM_ex_H cats) (k # ks)))"
    using hi by (simp split: if_splits)
  ultimately show ?case using l r by simp
qed

lemma reorderLoop_append:
  "reorderLoop cats plan start end st (ks @ ls) =
     reorderLoop cats plan start end (reorderLoop cats plan start end st ks) ls"
  by (simp add: reorderLoop_def)

lemma reorderLoop_Cons:
  "reorderLoop cats plan start end st (k # ks) =
     reorderLoop cats plan start end (reorderStep cats plan start end st k) ks"
  by (simp add: reorderLoop_def)

lemma reorderConsonantSyllable_loop:
  assumes "end \<le> length (Info buffer)"
  shows "reorderConsonantSyllable cats plan buffer start end =
     Inr (buffer\<lparr>Info := fst (reorderLoop cats plan start end
            (postBaseMasks plan start end (Info buffer), 0) [Suc start..<end])\<rparr>)"
  using assms by (simp add: reorderConsonantSyllable_def)

lemma reorderLoop_trace:
  assumes b: "end \<le> length info0" and i: "start < i" "i < end"
  shows "passStep cats plan start end i
           (reorderLoop cats plan start end (info0, 0) [Suc start..<i])
           (reorderLoop cats plan start end (info0, 0) [Suc start..<i + 1])"
proof -
  let ?S = "\<lambda>i. reorderLoop cats plan start end (info0, 0) [Suc start..<i]"
  obtain info nc where st: "?S i = (info, nc)" by (cases "?S i")
  have "length (fst (?S i)) = length info0"
    using i b by (intro length_reorderLoop) auto
  then have len: "end \<le> length info" using st b by simp
  have "[Suc start..<i + 1] = [Suc start..<i] @ [i]" using i by simp
  then have "?S (i + 1) = reorderStep cats plan start end (?S i) i"
    by (simp add: reorderLoop_snoc)
  then show ?thesis
    using reorderStep_passStep [of start i "end" info cats plan nc] i len st by simp
qed

lemma upt_split: "a \<le> b \<Longrightarrow> b \<le> c \<Longrightarrow> [a..<c] = [a..<b] @ [b..<c]"
  using upt_add_eq_append [of a b "c - b"] by simp

lemma pairMoved_category_after:
  assumes "pairMoved pref cfar start i end info info'" "i + 2 \<le> k" "k < end"
  shows "complexCategory (info' ! k) = complexCategory (info ! k)"
proof -
  have "info' ! k = (info ! k)\<lparr>Mask := Mask (info ! k) OR cfar\<rparr>"
    using assms by (simp add: pairMoved_def)
  then show ?thesis by simp
qed

lemma pairMoved_category_prev:
  assumes "pairMoved pref cfar start i end info info'" "start < i"
  shows "complexCategory (info' ! (i + 1)) = complexCategory (info ! (i - 1))"
proof -
  have "\<forall>k. start \<le> k \<and> k < i \<longrightarrow> movedGlyph 0 (info ! k) (info' ! (k + 2))"
    using assms(1) unfolding pairMoved_def by blast
  then have "movedGlyph 0 (info ! (i - 1)) (info' ! (i - 1 + 2))"
    using assms(2) by (auto elim!: allE [of _ "i - 1"])
  moreover have "i - 1 + 2 = i + 1" using assms(2) by simp
  ultimately show ?thesis by (simp add: movedGlyph_def sameGlyph_fields)
qed

lemma pairMoved_length: "pairMoved pref cfar start i end info info' \<Longrightarrow> length info' = length info"
  by (simp add: pairMoved_def)

lemma matraMoved_length: "matraMoved start i info info' \<Longrightarrow> length info' = length info"
  by (simp add: matraMoved_def)

lemma matraMoved_after:
  assumes "matraMoved start i info info'" "i + 1 \<le> k" "k < length info"
  shows "info' ! k = info ! k"
  using assms by (simp add: matraMoved_def)

lemma loop_to_pair:
  assumes b: "start < i" "i + 1 < end" "end \<le> length info0"
    and H: "complexCategory (info0 ! i) = khmSM_ex_H cats"
    and Ra: "complexCategory (info0 ! (i + 1)) = khmSM_ex_Ra cats"
    and pre: "\<forall>k. start < k \<and> k < i \<longrightarrow> noTrigger cats end info0 k"
    and cnt: "length (filter (\<lambda>k. complexCategory (info0 ! k) = khmSM_ex_H cats) [Suc start..<i]) \<le> 2"
  shows "\<exists>info1. reorderLoop cats plan start end (info0, 0) [Suc start..<Suc i] = (info1, 2) \<and>
      pairMoved (maskArray plan ! khmerPref) (maskArray plan ! khmerCfar) start i end info0 info1"
proof -
  have "\<forall>k\<in>set [Suc start..<i]. noTrigger cats end info0 k" using pre by simp
  from reorderLoop_quiet [OF this, of plan start 0] obtain nc1
    where q: "reorderLoop cats plan start end (info0, 0) [Suc start..<i] = (info0, nc1)"
      and n: "nc1 \<le> 0 + int (length (filter (\<lambda>k. complexCategory (info0 ! k) = khmSM_ex_H cats)
            [Suc start..<i]))"
    by blast
  have nc: "nc1 \<le> 2" using n cnt by simp
  have "[Suc start..<Suc i] = [Suc start..<i] @ [i]" using b by simp
  then have "reorderLoop cats plan start end (info0, 0) [Suc start..<Suc i] =
      reorderStep cats plan start end (info0, nc1) i"
    by (simp add: reorderLoop_snoc q)
  with reorderStep_pair [OF b H Ra nc, of plan] show ?thesis by simp
qed

lemma loop_pair_only:
  assumes b: "start < i" "i + 1 < end" "end \<le> length info0"
    and H: "complexCategory (info0 ! i) = khmSM_ex_H cats"
    and Ra: "complexCategory (info0 ! (i + 1)) = khmSM_ex_Ra cats"
    and pre: "\<forall>k. start < k \<and> k < i \<longrightarrow> noTrigger cats end info0 k"
    and cnt: "length (filter (\<lambda>k. complexCategory (info0 ! k) = khmSM_ex_H cats) [Suc start..<i]) \<le> 2"
    and prev: "complexCategory (info0 ! (i - 1)) \<noteq> khmSM_ex_H cats"
              "complexCategory (info0 ! (i - 1)) \<noteq> khmSM_ex_VPre cats"
    and post: "\<forall>k. i + 2 \<le> k \<and> k < end \<longrightarrow> noTrigger cats end info0 k"
  shows "\<exists>info'. fst (reorderLoop cats plan start end (info0, 0) [Suc start..<end]) = info' \<and>
      pairMoved (maskArray plan ! khmerPref) (maskArray plan ! khmerCfar) start i end info0 info'"
proof -
  from loop_to_pair [OF b H Ra pre cnt, of plan] obtain info1
    where l: "reorderLoop cats plan start end (info0, 0) [Suc start..<Suc i] = (info1, 2)"
      and pm: "pairMoved (maskArray plan ! khmerPref) (maskArray plan ! khmerCfar) start i end info0 info1"
    by blast
  have quiet: "noTrigger cats end info1 k" if "k \<in> set [Suc i..<end]" for k
  proof (cases "k = i + 1")
    case True
    then show ?thesis
      using pairMoved_category_prev [OF pm b(1)] prev by (simp add: noTrigger_def)
  next
    case False
    then have k: "i + 2 \<le> k" "k < end" using that by simp_all
    have "noTrigger cats end info1 k = noTrigger cats end info0 k"
      using k by (intro noTrigger_cong pairMoved_category_after [OF pm]) simp_all
    then show ?thesis using post k by simp
  qed
  from reorderLoop_quiet [of "[Suc i..<end]" cats "end" info1 plan start 2] quiet
  obtain nc' where "reorderLoop cats plan start end (info1, 2) [Suc i..<end] = (info1, nc')"
    by blast
  moreover have split: "[Suc start..<end] = [Suc start..<Suc i] @ [Suc i..<end]"
    using b by (intro upt_split) simp_all
  have "reorderLoop cats plan start end (info0, 0) [Suc start..<end] =
      reorderLoop cats plan start end
        (reorderLoop cats plan start end (info0, 0) [Suc start..<Suc i]) [Suc i..<end]"
    by (subst split) (rule reorderLoop_append)
  ultimately have "reorderLoop cats plan start end (info0, 0) [Suc start..<end] = (info1, nc')"
    by (simp only: l)
  with pm show ?thesis by simp
qed

lemma loop_matra_only:
  assumes b: "start < i" "i < end" "end \<le> length info0"
    and V: "complexCategory (info0 ! i) = khmSM_ex_VPre cats"
    and nH: "complexCategory (info0 ! i) \<noteq> khmSM_ex_H cats"
    and others: "\<forall>k. start < k \<and> k < end \<and> k \<noteq> i \<longrightarrow> noTrigger cats end info0 k"
  shows "\<exists>info'. fst (reorderLoop cats plan start end (info0, 0) [Suc start..<end]) = info' \<and>
      matraMoved start i info0 info'"
proof -
  have "\<forall>k\<in>set [Suc start..<i]. noTrigger cats end info0 k" using others b by simp
  from reorderLoop_quiet [OF this, of plan start 0] obtain nc1
    where q: "reorderLoop cats plan start end (info0, 0) [Suc start..<i] = (info0, nc1)"
    by blast
  from reorderStep_matra [OF b V, where nc = nc1 and plan = plan] nH obtain info1
    where s: "reorderStep cats plan start end (info0, nc1) i = (info1, nc1)"
      and mm: "matraMoved start i info0 info1"
    by blast
  have quiet: "noTrigger cats end info1 k" if "k \<in> set [Suc i..<end]" for k
  proof -
    have k: "i + 1 \<le> k" "k < end" "k < length info0" using that b by simp_all
    have "noTrigger cats end info1 k = noTrigger cats end info0 k"
      using k b by (intro noTrigger_cong) (simp_all add: matraMoved_after [OF mm])
    moreover have "start < k \<and> k < end \<and> k \<noteq> i" using k b by simp
    ultimately show ?thesis using others by blast
  qed
  from reorderLoop_quiet [of "[Suc i..<end]" cats "end" info1 plan start nc1] quiet
  obtain nc' where "reorderLoop cats plan start end (info1, nc1) [Suc i..<end] = (info1, nc')"
    by blast
  moreover have split: "[Suc start..<end] = [Suc start..<i] @ i # [Suc i..<end]"
    using b upt_split [of "Suc start" i "end"] by (simp add: upt_conv_Cons)
  have "reorderLoop cats plan start end (info0, 0) [Suc start..<end] =
      reorderLoop cats plan start end (reorderStep cats plan start end
        (reorderLoop cats plan start end (info0, 0) [Suc start..<i]) i) [Suc i..<end]"
    by (subst split) (simp only: reorderLoop_append reorderLoop_Cons)
  ultimately have "reorderLoop cats plan start end (info0, 0) [Suc start..<end] = (info1, nc')"
    by (simp only: q s)
  with mm show ?thesis by simp
qed

lemma loop_pair_then_matra:
  assumes b: "start < i" "i + 1 < end" "end \<le> length info0"
    and H: "complexCategory (info0 ! i) = khmSM_ex_H cats"
    and Ra: "complexCategory (info0 ! (i + 1)) = khmSM_ex_Ra cats"
    and pre: "\<forall>k. start < k \<and> k < i \<longrightarrow> noTrigger cats end info0 k"
    and cnt: "length (filter (\<lambda>k. complexCategory (info0 ! k) = khmSM_ex_H cats) [Suc start..<i]) \<le> 2"
    and prev: "complexCategory (info0 ! (i - 1)) \<noteq> khmSM_ex_H cats"
              "complexCategory (info0 ! (i - 1)) \<noteq> khmSM_ex_VPre cats"
    and j: "i + 2 \<le> j" "j < end"
    and V: "complexCategory (info0 ! j) = khmSM_ex_VPre cats"
    and nH: "complexCategory (info0 ! j) \<noteq> khmSM_ex_H cats"
    and post: "\<forall>k. i + 2 \<le> k \<and> k < end \<and> k \<noteq> j \<longrightarrow> noTrigger cats end info0 k"
  shows "\<exists>info1 info'. fst (reorderLoop cats plan start end (info0, 0) [Suc start..<end]) = info' \<and>
      pairMoved (maskArray plan ! khmerPref) (maskArray plan ! khmerCfar) start i end info0 info1 \<and>
      matraMoved start j info1 info'"
proof -
  from loop_to_pair [OF b H Ra pre cnt, of plan] obtain info1
    where l: "reorderLoop cats plan start end (info0, 0) [Suc start..<Suc i] = (info1, 2)"
      and pm: "pairMoved (maskArray plan ! khmerPref) (maskArray plan ! khmerCfar) start i end info0 info1"
    by blast
  have len1: "length info1 = length info0" using pm by (rule pairMoved_length)
  have cat1: "complexCategory (info1 ! k) = complexCategory (info0 ! k)" if "i + 2 \<le> k" "k < end" for k
    using that by (rule pairMoved_category_after [OF pm])
  have quiet1: "noTrigger cats end info1 k" if "k \<in> set [Suc i..<j]" for k
  proof (cases "k = i + 1")
    case True
    then show ?thesis
      using pairMoved_category_prev [OF pm b(1)] prev by (simp add: noTrigger_def)
  next
    case False
    then have k: "i + 2 \<le> k" "k < end" "k \<noteq> j" using that j by simp_all
    have "noTrigger cats end info1 k = noTrigger cats end info0 k"
      using k by (intro noTrigger_cong cat1) simp_all
    then show ?thesis using post k by blast
  qed
  from reorderLoop_quiet [of "[Suc i..<j]" cats "end" info1 plan start 2] quiet1
  obtain nc2 where m: "reorderLoop cats plan start end (info1, 2) [Suc i..<j] = (info1, nc2)"
    by blast
  have bj: "start < j" "j < end" "end \<le> length info1" using b j len1 by simp_all
  have Vj: "complexCategory (info1 ! j) = khmSM_ex_VPre cats" using cat1 [of j] j V by simp
  have nHj: "complexCategory (info1 ! j) \<noteq> khmSM_ex_H cats" using cat1 [of j] j nH by simp
  from reorderStep_matra [OF bj Vj, where nc = nc2 and plan = plan] nHj obtain info2
    where s: "reorderStep cats plan start end (info1, nc2) j = (info2, nc2)"
      and mm: "matraMoved start j info1 info2"
    by blast
  have quiet2: "noTrigger cats end info2 k" if "k \<in> set [Suc j..<end]" for k
  proof -
    have k: "j + 1 \<le> k" "k < end" "k < length info1" "i + 2 \<le> k" "k \<noteq> j"
      using that b j len1 by simp_all
    have "complexCategory (info2 ! k) = complexCategory (info0 ! k)"
      using k by (simp add: matraMoved_after [OF mm] cat1)
    moreover have "complexCategory (info2 ! (k + 1)) = complexCategory (info0 ! (k + 1))"
      if "k + 1 < end"
      using k that bj by (simp add: matraMoved_after [OF mm] cat1)
    ultimately have "noTrigger cats end info2 k = noTrigger cats end info0 k"
      by (intro noTrigger_cong) simp_all
    then show ?thesis using post k by blast
  qed
  from reorderLoop_quiet [of "[Suc j..<end]" cats "end" info2 plan start nc2] quiet2
  obtain nc' where e: "reorderLoop cats plan start end (info2, nc2) [Suc j..<end] = (info2, nc')"
    by blast
  have s1: "[Suc start..<end] = [Suc start..<Suc i] @ [Suc i..<end]"
    using b by (intro upt_split) simp_all
  have s2: "[Suc i..<end] = [Suc i..<j] @ j # [Suc j..<end]"
    using j upt_split [of "Suc i" j "end"] by (simp add: upt_conv_Cons)
  have "reorderLoop cats plan start end (info0, 0) [Suc start..<end] =
      reorderLoop cats plan start end (reorderStep cats plan start end
        (reorderLoop cats plan start end
           (reorderLoop cats plan start end (info0, 0) [Suc start..<Suc i]) [Suc i..<j]) j)
        [Suc j..<end]"
    by (subst s1, subst s2) (simp only: reorderLoop_append reorderLoop_Cons)
  then have "reorderLoop cats plan start end (info0, 0) [Suc start..<end] = (info2, nc')"
    by (simp only: l m s e)
  with pm mm show ?thesis by auto
qed

lemma movedGlyph_Glyph: "movedGlyph m g h \<Longrightarrow> Glyph h = Glyph g"
  by (simp add: movedGlyph_def sameGlyph_fields)

lemma movedGlyph_Mask:
  "movedGlyph m g h \<Longrightarrow> Mask h AND NOT glyphFlagDefined = (Mask g OR m) AND NOT glyphFlagDefined"
  by (simp add: movedGlyph_def tagged_def)

lemma postBaseTagged_nth:
  assumes "postBaseTagged plan start end info info0" "k < length info"
  shows "Glyph (info0 ! k) = Glyph (info ! k)" "Cluster (info0 ! k) = Cluster (info ! k)"
    "Mask (info0 ! k) =
       (if start < k \<and> k < end
        then Mask (info ! k) OR (maskArray plan ! khmerBlwf OR maskArray plan ! khmerAbvf OR
               maskArray plan ! khmerPstf)
        else Mask (info ! k))"
  using assms by (simp_all add: postBaseTagged_def)

lemma postBaseTagged_length: "postBaseTagged plan start end info info0 \<Longrightarrow> length info0 = length info"
  by (simp add: postBaseTagged_def)

lemma pairMoved_pair:
  assumes "pairMoved pref cfar start i end info info'"
  shows "Glyph (info' ! start) = Glyph (info ! i)"
    "Glyph (info' ! (start + 1)) = Glyph (info ! (i + 1))"
    "Mask (info' ! start) AND NOT glyphFlagDefined = (Mask (info ! i) OR pref) AND NOT glyphFlagDefined"
    "Mask (info' ! (start + 1)) AND NOT glyphFlagDefined =
       (Mask (info ! (i + 1)) OR pref) AND NOT glyphFlagDefined"
proof -
  have m: "movedGlyph pref (info ! i) (info' ! start)"
    "movedGlyph pref (info ! (i + 1)) (info' ! (start + 1))"
    using assms unfolding pairMoved_def by blast+
  show "Glyph (info' ! start) = Glyph (info ! i)"
    "Glyph (info' ! (start + 1)) = Glyph (info ! (i + 1))"
    by (rule movedGlyph_Glyph [OF m(1)], rule movedGlyph_Glyph [OF m(2)])
  show "Mask (info' ! start) AND NOT glyphFlagDefined = (Mask (info ! i) OR pref) AND NOT glyphFlagDefined"
    "Mask (info' ! (start + 1)) AND NOT glyphFlagDefined =
       (Mask (info ! (i + 1)) OR pref) AND NOT glyphFlagDefined"
    by (rule movedGlyph_Mask [OF m(1)], rule movedGlyph_Mask [OF m(2)])
qed

lemma pairMoved_shifted:
  assumes "pairMoved pref cfar start i end info info'" "start \<le> k" "k < i"
  shows "Glyph (info' ! (k + 2)) = Glyph (info ! k)"
proof -
  have "movedGlyph 0 (info ! k) (info' ! (k + 2))"
    using assms unfolding pairMoved_def by blast
  then show ?thesis by (rule movedGlyph_Glyph)
qed

lemma pairMoved_cluster:
  assumes "pairMoved pref cfar start i end info info'" "start \<le> k" "k < i + 2"
  shows "Cluster (info' ! k) = clusterMin info start (i + 2)"
  using assms unfolding pairMoved_def by blast

lemma pairMoved_after:
  assumes "pairMoved pref cfar start i end info info'" "i + 2 \<le> k" "k < end"
  shows "info' ! k = (info ! k)\<lparr>Mask := Mask (info ! k) OR cfar\<rparr>"
  using assms unfolding pairMoved_def by blast

lemma matraMoved_front:
  assumes "matraMoved start i info info'"
  shows "Glyph (info' ! start) = Glyph (info ! i)"
proof -
  have "movedGlyph 0 (info ! i) (info' ! start)"
    using assms unfolding matraMoved_def by blast
  then show ?thesis by (rule movedGlyph_Glyph)
qed

lemma matraMoved_shifted:
  assumes "matraMoved start i info info'" "start \<le> k" "k < i"
  shows "Glyph (info' ! (k + 1)) = Glyph (info ! k)"
proof -
  have "movedGlyph 0 (info ! k) (info' ! (k + 1))"
    using assms unfolding matraMoved_def by blast
  then show ?thesis by (rule movedGlyph_Glyph)
qed

lemma matraMoved_cluster:
  assumes "matraMoved start i info info'" "start \<le> k" "k < i + 1"
  shows "Cluster (info' ! k) = clusterMin info start (i + 1)"
  using assms unfolding matraMoved_def by blast

lemma clusterMin_upt: "a < b \<Longrightarrow>
  clusterMin info a b = foldl (\<lambda>c j. min c (Cluster (info ! j))) (Cluster (info ! a)) [Suc a..<b]"
  by (simp add: clusterMin_minCluster [symmetric] minCluster_def)

lemma map_by_nth: "map f xs = map (\<lambda>k. f (xs ! k)) [0..<length xs]"
  by (rule nth_equalityI) simp_all

lemma khmer_categories [simp]:
  "khmSM_ex_H khmerCats = 4" "khmSM_ex_Ra khmerCats = 15" "khmSM_ex_VPre khmerCats = 22"
  by (simp_all add: khmerCats_def)

lemma khmerGlyph_fields [simp]:
  "Glyph (khmerGlyph g c cl) = g" "complexCategory (khmerGlyph g c cl) = c"
  "Cluster (khmerGlyph g c cl) = cl" "Mask (khmerGlyph g c cl) = 0"
  by (simp_all add: khmerGlyph_def glyphOf_def)

lemma khmerPlan_masks:
  "maskArray khmerPlan ! khmerPref = 0x100" "maskArray khmerPlan ! khmerCfar = 0x1000"
  "maskArray khmerPlan ! khmerBlwf OR maskArray khmerPlan ! khmerAbvf OR
   maskArray khmerPlan ! khmerPstf = 0xE00"
  by (simp_all add: khmerPlan_def khmerPref_def khmerCfar_def khmerBlwf_def khmerAbvf_def
      khmerPstf_def)

lemma list2_eq:
  "length xs = 2 \<Longrightarrow> f (xs ! 0) = a \<Longrightarrow> f (xs ! 1) = b \<Longrightarrow> map f xs = [a, b]"
  by (cases xs; cases "tl xs") auto

lemma list3_eq:
  "length xs = 3 \<Longrightarrow> f (xs ! 0) = a \<Longrightarrow> f (xs ! 1) = b \<Longrightarrow> f (xs ! 2) = c \<Longrightarrow>
   map f xs = [a, b, c]"
  by (cases xs; cases "tl xs"; cases "tl (tl xs)") auto

lemma list4_eq:
  "length xs = 4 \<Longrightarrow> f (xs ! 0) = a \<Longrightarrow> f (xs ! 1) = b \<Longrightarrow> f (xs ! 2) = c \<Longrightarrow>
   f (xs ! 3) = d \<Longrightarrow> map f xs = [a, b, c, d]"
  by (cases xs; cases "tl xs"; cases "tl (tl xs)"; cases "tl (tl (tl xs))") (auto simp: numeral_3_eq_3)

text \<open>
  Claim C8. For a syllable \<open>[start, end)\<close> inside the buffer, \<open>reorderConsonantSyllable\<close> returns, and
  what it returns is one pass over the syllable in the words of the specification: there are
  states \<open>S (start + 1), \<dots>, S end\<close>, the first the post-base tagged glyphs with a count of zero,
  each next one got by \<open>passStep\<close> at its index (a Coeng followed by Ra, met while the count of
  Coengs is at most two, is moved with the Ra to the start of the syllable, the clusters of the
  moved range merged, both glyphs tagged \<open>pref\<close> and the glyphs after the pair tagged \<open>cfar\<close>; a
  left matra is moved to the start), and the glyphs of the last state are the result.

  In terms of the input alone: let a Coeng at \<open>i\<close> be followed by Ra, with no left matra and no
  Coeng followed by Ra before it in the syllable, at most two Coengs before it (so it is among
  the first two Coeng occurrences, or the third), and a glyph before it that is neither Coeng
  nor left matra. If nothing after the pair starts a reordering, the result is \<open>pairMoved\<close>: the
  pair stands at the start of the syllable. If the only such glyph after the pair is a left
  matra at \<open>j\<close>, the result is \<open>pairMoved\<close> followed by \<open>matraMoved\<close>: the matra stands at the
  start, the pair right after it. And if a left matra at \<open>i\<close> is the only glyph of the syllable
  that starts a reordering, the result is \<open>matraMoved\<close>.
\<close>

theorem reorderConsonantSyllable_pass:
  assumes b: "start < end" "end \<le> length (Info buffer)"
  shows
   "(\<exists>S. postBaseTagged plan start end (Info buffer) (fst (S (start + 1))) \<and>
         snd (S (start + 1)) = 0 \<and>
         (\<forall>i. start < i \<and> i < end \<longrightarrow> passStep cats plan start end i (S i) (S (i + 1))) \<and>
         reorderConsonantSyllable cats plan buffer start end =
           Inr (buffer\<lparr>Info := fst (S end)\<rparr>)) \<and>
    (start < i \<and> i + 1 < end \<and>
     complexCategory (Info buffer ! i) = khmSM_ex_H cats \<and>
     complexCategory (Info buffer ! (i + 1)) = khmSM_ex_Ra cats \<and>
     (\<forall>k. start < k \<and> k < i \<longrightarrow> noTrigger cats end (Info buffer) k) \<and>
     length (filter (\<lambda>k. complexCategory (Info buffer ! k) = khmSM_ex_H cats) [Suc start..<i]) \<le> 2 \<and>
     complexCategory (Info buffer ! (i - 1)) \<noteq> khmSM_ex_H cats \<and>
     complexCategory (Info buffer ! (i - 1)) \<noteq> khmSM_ex_VPre cats \<longrightarrow>
       ((\<forall>k. i + 2 \<le> k \<and> k < end \<longrightarrow> noTrigger cats end (Info buffer) k) \<longrightarrow>
          (\<exists>info0 info'. postBaseTagged plan start end (Info buffer) info0 \<and>
             pairMoved (maskArray plan ! khmerPref) (maskArray plan ! khmerCfar)
               start i end info0 info' \<and>
             reorderConsonantSyllable cats plan buffer start end =
               Inr (buffer\<lparr>Info := info'\<rparr>))) \<and>
       (i + 2 \<le> j \<and> j < end \<and>
        complexCategory (Info buffer ! j) = khmSM_ex_VPre cats \<and>
        complexCategory (Info buffer ! j) \<noteq> khmSM_ex_H cats \<and>
        (\<forall>k. i + 2 \<le> k \<and> k < end \<and> k \<noteq> j \<longrightarrow> noTrigger cats end (Info buffer) k) \<longrightarrow>
          (\<exists>info0 info1 info'. postBaseTagged plan start end (Info buffer) info0 \<and>
             pairMoved (maskArray plan ! khmerPref) (maskArray plan ! khmerCfar)
               start i end info0 info1 \<and>
             matraMoved start j info1 info' \<and>
             reorderConsonantSyllable cats plan buffer start end =
               Inr (buffer\<lparr>Info := info'\<rparr>)))) \<and>
    (start < i \<and> i < end \<and>
     complexCategory (Info buffer ! i) = khmSM_ex_VPre cats \<and>
     complexCategory (Info buffer ! i) \<noteq> khmSM_ex_H cats \<and>
     (\<forall>k. start < k \<and> k < end \<and> k \<noteq> i \<longrightarrow> noTrigger cats end (Info buffer) k) \<longrightarrow>
       (\<exists>info0 info'. postBaseTagged plan start end (Info buffer) info0 \<and>
          matraMoved start i info0 info' \<and>
          reorderConsonantSyllable cats plan buffer start end =
            Inr (buffer\<lparr>Info := info'\<rparr>)))"
proof -
  let ?info0 = "postBaseMasks plan start end (Info buffer)"
  let ?S = "\<lambda>i. reorderLoop cats plan start end (?info0, 0) [Suc start..<i]"
  have pt: "postBaseTagged plan start end (Info buffer) ?info0"
    by (rule postBaseMasks_tagged)
  have len0: "end \<le> length ?info0" using b by simp
  have res: "reorderConsonantSyllable cats plan buffer start end =
      Inr (buffer\<lparr>Info := fst (?S end)\<rparr>)"
    using b(2) by (rule reorderConsonantSyllable_loop)
  have cat0: "complexCategory (?info0 ! k) = complexCategory (Info buffer ! k)" if "k < end" for k
    using that b by (intro postBaseTagged_category [OF pt]) simp
  have nt0: "noTrigger cats end ?info0 k = noTrigger cats end (Info buffer) k" if "k < end" for k
    using that by (intro noTrigger_cong cat0) simp_all
  have flt: "filter (\<lambda>k. complexCategory (?info0 ! k) = khmSM_ex_H cats) [Suc start..<i] =
      filter (\<lambda>k. complexCategory (Info buffer ! k) = khmSM_ex_H cats) [Suc start..<i]"
    if "i < end" for i
    using that by (intro filter_cong) (simp_all add: cat0)
  have T: "\<exists>S. postBaseTagged plan start end (Info buffer) (fst (S (start + 1))) \<and>
         snd (S (start + 1)) = 0 \<and>
         (\<forall>i. start < i \<and> i < end \<longrightarrow> passStep cats plan start end i (S i) (S (i + 1))) \<and>
         reorderConsonantSyllable cats plan buffer start end =
           Inr (buffer\<lparr>Info := fst (S end)\<rparr>)"
  proof (intro exI [of _ ?S] conjI allI impI)
    show "postBaseTagged plan start end (Info buffer) (fst (?S (start + 1)))"
      using pt by (simp add: reorderLoop_def)
    show "snd (?S (start + 1)) = 0" by (simp add: reorderLoop_def)
    show "passStep cats plan start end i (?S i) (?S (i + 1))" if "start < i \<and> i < end" for i
      using that len0 by (intro reorderLoop_trace) simp_all
    show "reorderConsonantSyllable cats plan buffer start end = Inr (buffer\<lparr>Info := fst (?S end)\<rparr>)"
      by (rule res)
  qed
  have A: "\<exists>info0 info'. postBaseTagged plan start end (Info buffer) info0 \<and>
             pairMoved (maskArray plan ! khmerPref) (maskArray plan ! khmerCfar)
               start i end info0 info' \<and>
             reorderConsonantSyllable cats plan buffer start end = Inr (buffer\<lparr>Info := info'\<rparr>)"
    if h: "start < i" "i + 1 < end"
      "complexCategory (Info buffer ! i) = khmSM_ex_H cats"
      "complexCategory (Info buffer ! (i + 1)) = khmSM_ex_Ra cats"
      "\<forall>k. start < k \<and> k < i \<longrightarrow> noTrigger cats end (Info buffer) k"
      "length (filter (\<lambda>k. complexCategory (Info buffer ! k) = khmSM_ex_H cats) [Suc start..<i]) \<le> 2"
      "complexCategory (Info buffer ! (i - 1)) \<noteq> khmSM_ex_H cats"
      "complexCategory (Info buffer ! (i - 1)) \<noteq> khmSM_ex_VPre cats"
      and post: "\<forall>k. i + 2 \<le> k \<and> k < end \<longrightarrow> noTrigger cats end (Info buffer) k"
  proof -
    have "\<exists>info'. fst (?S end) = info' \<and>
        pairMoved (maskArray plan ! khmerPref) (maskArray plan ! khmerCfar) start i end ?info0 info'"
      using h post len0 by (intro loop_pair_only) (simp_all add: cat0 nt0 flt)
    with pt res show ?thesis by auto
  qed
  have C: "\<exists>info0 info1 info'. postBaseTagged plan start end (Info buffer) info0 \<and>
             pairMoved (maskArray plan ! khmerPref) (maskArray plan ! khmerCfar)
               start i end info0 info1 \<and>
             matraMoved start j info1 info' \<and>
             reorderConsonantSyllable cats plan buffer start end = Inr (buffer\<lparr>Info := info'\<rparr>)"
    if h: "start < i" "i + 1 < end"
      "complexCategory (Info buffer ! i) = khmSM_ex_H cats"
      "complexCategory (Info buffer ! (i + 1)) = khmSM_ex_Ra cats"
      "\<forall>k. start < k \<and> k < i \<longrightarrow> noTrigger cats end (Info buffer) k"
      "length (filter (\<lambda>k. complexCategory (Info buffer ! k) = khmSM_ex_H cats) [Suc start..<i]) \<le> 2"
      "complexCategory (Info buffer ! (i - 1)) \<noteq> khmSM_ex_H cats"
      "complexCategory (Info buffer ! (i - 1)) \<noteq> khmSM_ex_VPre cats"
      and hj: "i + 2 \<le> j" "j < end"
        "complexCategory (Info buffer ! j) = khmSM_ex_VPre cats"
        "complexCategory (Info buffer ! j) \<noteq> khmSM_ex_H cats"
        "\<forall>k. i + 2 \<le> k \<and> k < end \<and> k \<noteq> j \<longrightarrow> noTrigger cats end (Info buffer) k"
  proof -
    have "\<exists>info1 info'. fst (?S end) = info' \<and>
        pairMoved (maskArray plan ! khmerPref) (maskArray plan ! khmerCfar) start i end ?info0 info1 \<and>
        matraMoved start j info1 info'"
      using h hj len0 by (intro loop_pair_then_matra) (simp_all add: cat0 nt0 flt)
    with pt res show ?thesis by auto
  qed
  have B: "\<exists>info0 info'. postBaseTagged plan start end (Info buffer) info0 \<and>
          matraMoved start i info0 info' \<and>
          reorderConsonantSyllable cats plan buffer start end = Inr (buffer\<lparr>Info := info'\<rparr>)"
    if h: "start < i" "i < end"
      "complexCategory (Info buffer ! i) = khmSM_ex_VPre cats"
      "complexCategory (Info buffer ! i) \<noteq> khmSM_ex_H cats"
      "\<forall>k. start < k \<and> k < end \<and> k \<noteq> i \<longrightarrow> noTrigger cats end (Info buffer) k"
  proof -
    have "\<exists>info'. fst (?S end) = info' \<and> matraMoved start i ?info0 info'"
      using h len0 by (intro loop_matra_only) (simp_all add: cat0 nt0)
    with pt res show ?thesis by auto
  qed
  from T A C B show ?thesis by blast
qed

theorem reorderConsonantSyllable_pass_witness:
  "(\<exists>b. reorderConsonantSyllable khmerCats khmerPlan (bufferOf khmerKaCoengRo {} {}) 0 3 = Inr b \<and>
      map Glyph (Info b) = [11, 12, 10] \<and> map Cluster (Info b) = [0, 0, 0] \<and>
      Mask (Info b ! 0) AND NOT glyphFlagDefined = 0xF00 \<and>
      Mask (Info b ! 1) AND NOT glyphFlagDefined = 0xF00) \<and>
   (\<exists>b. reorderConsonantSyllable khmerCats khmerPlan (bufferOf khmerKaCoengRoE {} {}) 0 4 = Inr b \<and>
      map Glyph (Info b) = [13, 11, 12, 10] \<and> map Cluster (Info b) = [0, 0, 0, 0]) \<and>
   (\<exists>b. reorderConsonantSyllable khmerCats khmerPlan (bufferOf khmerKaE {} {}) 0 2 = Inr b \<and>
      map Glyph (Info b) = [13, 10] \<and> map Cluster (Info b) = [0, 0]) \<and>
   (\<exists>b. reorderConsonantSyllable khmerCats khmerPlan (bufferOf khmerKaCoengKha {} {}) 0 3 = Inr b \<and>
      map Glyph (Info b) = [10, 11, 14] \<and> map Cluster (Info b) = [0, 1, 2])"
proof -
  have A: "\<exists>b. reorderConsonantSyllable khmerCats khmerPlan (bufferOf khmerKaCoengRo {} {}) 0 3 = Inr b \<and>
      map Glyph (Info b) = [11, 12, 10] \<and> map Cluster (Info b) = [0, 0, 0] \<and>
      Mask (Info b ! 0) AND NOT glyphFlagDefined = 0xF00 \<and>
      Mask (Info b ! 1) AND NOT glyphFlagDefined = 0xF00"
  proof -
    let ?B = "bufferOf khmerKaCoengRo {} {}"
    have len: "length khmerKaCoengRo = 3" by (simp add: khmerKaCoengRo_def)
    have b: "(0 :: nat) < 3" "3 \<le> length (Info ?B)" by (simp_all add: len)
    note T = reorderConsonantSyllable_pass [of 0 3 ?B khmerPlan khmerCats 1 0, OF b]
    have "\<exists>info0 info'. postBaseTagged khmerPlan 0 3 khmerKaCoengRo info0 \<and>
        pairMoved 0x100 0x1000 0 1 3 info0 info' \<and>
        reorderConsonantSyllable khmerCats khmerPlan ?B 0 3 = Inr (?B\<lparr>Info := info'\<rparr>)"
      using T [THEN conjunct2, THEN conjunct1]
      by (simp add: khmerPlan_masks noTrigger_def) (simp add: khmerKaCoengRo_def)
    then obtain info0 info' where pt: "postBaseTagged khmerPlan 0 3 khmerKaCoengRo info0"
      and pm: "pairMoved 0x100 0x1000 0 1 3 info0 info'"
      and res: "reorderConsonantSyllable khmerCats khmerPlan ?B 0 3 = Inr (?B\<lparr>Info := info'\<rparr>)"
      by blast
    have l': "length info' = 3"
      using pairMoved_length [OF pm] postBaseTagged_length [OF pt] len by simp
    have g0: "Glyph (info' ! 0) = 11"
      using pairMoved_pair(1) [OF pm] postBaseTagged_nth(1) [OF pt, of 1]
      by (simp add: khmerKaCoengRo_def)
    have g1: "Glyph (info' ! 1) = 12"
      using pairMoved_pair(2) [OF pm] postBaseTagged_nth(1) [OF pt, of 2]
      by (simp add: khmerKaCoengRo_def eval_nat_numeral)
    have g2: "Glyph (info' ! 2) = 10"
      using pairMoved_shifted [OF pm, of 0] postBaseTagged_nth(1) [OF pt, of 0]
      by (simp add: khmerKaCoengRo_def eval_nat_numeral)
    have cm: "clusterMin info0 0 3 = 0"
      using postBaseTagged_nth(2) [OF pt, of 0] postBaseTagged_nth(2) [OF pt, of 1]
        postBaseTagged_nth(2) [OF pt, of 2]
      by (simp add: clusterMin_upt upt_rec khmerKaCoengRo_def eval_nat_numeral)
    have c: "Cluster (info' ! k) = 0" if "k < 3" for k
      using pairMoved_cluster [OF pm, of k] that cm by (simp add: eval_nat_numeral)
    have m0: "Mask (info' ! 0) AND NOT glyphFlagDefined = 0xF00"
      using pairMoved_pair(3) [OF pm] postBaseTagged_nth(3) [OF pt, of 1]
      by (simp add: khmerKaCoengRo_def khmerPlan_masks glyphFlagDefined_def
          GlyphUnsafeToBreak_def GlyphUnsafeToConcat_def GlyphSafeToInsertTatweel_def)
    have m1: "Mask (info' ! 1) AND NOT glyphFlagDefined = 0xF00"
      using pairMoved_pair(4) [OF pm] postBaseTagged_nth(3) [OF pt, of 2]
      by (simp add: khmerKaCoengRo_def khmerPlan_masks eval_nat_numeral glyphFlagDefined_def
          GlyphUnsafeToBreak_def GlyphUnsafeToConcat_def GlyphSafeToInsertTatweel_def)
    have G: "map Glyph info' = [11, 12, 10]" using l' g0 g1 g2 by (rule list3_eq)
    have C: "map Cluster info' = [0, 0, 0]"
      using l' c [of 0] c [of 1] c [of 2] by (intro list3_eq) simp_all
    show ?thesis
      using res G C m0 m1 by simp
  qed
  have C: "\<exists>b. reorderConsonantSyllable khmerCats khmerPlan (bufferOf khmerKaCoengRoE {} {}) 0 4 = Inr b \<and>
      map Glyph (Info b) = [13, 11, 12, 10] \<and> map Cluster (Info b) = [0, 0, 0, 0]"
  proof -
    let ?B = "bufferOf khmerKaCoengRoE {} {}"
    have len: "length khmerKaCoengRoE = 4" by (simp add: khmerKaCoengRoE_def)
    have b: "(0 :: nat) < 4" "4 \<le> length (Info ?B)" by (simp_all add: len)
    note T = reorderConsonantSyllable_pass [of 0 4 ?B khmerPlan khmerCats 1 3, OF b]
    have "\<exists>info0 info1 info'. postBaseTagged khmerPlan 0 4 khmerKaCoengRoE info0 \<and>
        pairMoved 0x100 0x1000 0 1 4 info0 info1 \<and> matraMoved 0 3 info1 info' \<and>
        reorderConsonantSyllable khmerCats khmerPlan ?B 0 4 = Inr (?B\<lparr>Info := info'\<rparr>)"
      using T [THEN conjunct2, THEN conjunct1]
      by (simp add: khmerPlan_masks noTrigger_def) (simp add: khmerKaCoengRoE_def)
    then obtain info0 info1 info' where pt: "postBaseTagged khmerPlan 0 4 khmerKaCoengRoE info0"
      and pm: "pairMoved 0x100 0x1000 0 1 4 info0 info1"
      and mm: "matraMoved 0 3 info1 info'"
      and res: "reorderConsonantSyllable khmerCats khmerPlan ?B 0 4 = Inr (?B\<lparr>Info := info'\<rparr>)"
      by blast
    have l1: "length info1 = 4"
      using pairMoved_length [OF pm] postBaseTagged_length [OF pt] len by simp
    have l': "length info' = 4" using matraMoved_length [OF mm] l1 by simp
    have p0: "Glyph (info1 ! 0) = 11"
      using pairMoved_pair(1) [OF pm] postBaseTagged_nth(1) [OF pt, of 1]
      by (simp add: khmerKaCoengRoE_def)
    have p1: "Glyph (info1 ! 1) = 12"
      using pairMoved_pair(2) [OF pm] postBaseTagged_nth(1) [OF pt, of 2]
      by (simp add: khmerKaCoengRoE_def eval_nat_numeral)
    have p2: "Glyph (info1 ! 2) = 10"
      using pairMoved_shifted [OF pm, of 0] postBaseTagged_nth(1) [OF pt, of 0]
      by (simp add: khmerKaCoengRoE_def eval_nat_numeral)
    have p3: "Glyph (info1 ! 3) = 13" "Cluster (info1 ! 3) = 3"
      using pairMoved_after [OF pm, of 3] postBaseTagged_nth(1,2) [OF pt, of 3]
      by (simp_all add: khmerKaCoengRoE_def eval_nat_numeral)
    have cm0: "clusterMin info0 0 3 = 0"
      using postBaseTagged_nth(2) [OF pt, of 0] postBaseTagged_nth(2) [OF pt, of 1]
        postBaseTagged_nth(2) [OF pt, of 2]
      by (simp add: clusterMin_upt upt_rec khmerKaCoengRoE_def eval_nat_numeral)
    have c1: "Cluster (info1 ! k) = 0" if "k < 3" for k
      using pairMoved_cluster [OF pm, of k] that cm0 by (simp add: eval_nat_numeral)
    have cm1: "clusterMin info1 0 4 = 0"
      using c1 [of 0] c1 [of 1] c1 [of 2] p3(2)
      by (simp add: clusterMin_upt upt_rec eval_nat_numeral)
    have c: "Cluster (info' ! k) = 0" if "k < 4" for k
      using matraMoved_cluster [OF mm, of k] that cm1 by (simp add: eval_nat_numeral)
    have g0: "Glyph (info' ! 0) = 13" using matraMoved_front [OF mm] p3(1) by simp
    have g1: "Glyph (info' ! 1) = 11" using matraMoved_shifted [OF mm, of 0] p0 by simp
    have g2: "Glyph (info' ! 2) = 12"
      using matraMoved_shifted [OF mm, of 1] p1 by (simp add: eval_nat_numeral)
    have g3: "Glyph (info' ! 3) = 10"
      using matraMoved_shifted [OF mm, of 2] p2 by (simp add: eval_nat_numeral)
    have G: "map Glyph info' = [13, 11, 12, 10]" using l' g0 g1 g2 g3 by (rule list4_eq)
    have Cl: "map Cluster info' = [0, 0, 0, 0]"
      using l' c [of 0] c [of 1] c [of 2] c [of 3] by (intro list4_eq) simp_all
    show ?thesis using res G Cl by simp
  qed
  have B: "\<exists>b. reorderConsonantSyllable khmerCats khmerPlan (bufferOf khmerKaE {} {}) 0 2 = Inr b \<and>
      map Glyph (Info b) = [13, 10] \<and> map Cluster (Info b) = [0, 0]"
  proof -
    let ?B = "bufferOf khmerKaE {} {}"
    have len: "length khmerKaE = 2" by (simp add: khmerKaE_def)
    have b: "(0 :: nat) < 2" "2 \<le> length (Info ?B)" by (simp_all add: len)
    note T = reorderConsonantSyllable_pass [of 0 2 ?B khmerPlan khmerCats 1 0, OF b]
    have hyp: "0 < (1 :: nat) \<and> (1 :: nat) < 2 \<and>
        complexCategory (Info ?B ! 1) = khmSM_ex_VPre khmerCats \<and>
        complexCategory (Info ?B ! 1) \<noteq> khmSM_ex_H khmerCats \<and>
        (\<forall>k. 0 < k \<and> k < 2 \<and> k \<noteq> 1 \<longrightarrow> noTrigger khmerCats 2 (Info ?B) k)"
      by (auto simp: khmerKaE_def)
    have "\<exists>info0 info'. postBaseTagged khmerPlan 0 2 khmerKaE info0 \<and>
        matraMoved 0 1 info0 info' \<and>
        reorderConsonantSyllable khmerCats khmerPlan ?B 0 2 = Inr (?B\<lparr>Info := info'\<rparr>)"
      using T [THEN conjunct2, THEN conjunct2, THEN mp, OF hyp] by simp
    then obtain info0 info' where pt: "postBaseTagged khmerPlan 0 2 khmerKaE info0"
      and mm: "matraMoved 0 1 info0 info'"
      and res: "reorderConsonantSyllable khmerCats khmerPlan ?B 0 2 = Inr (?B\<lparr>Info := info'\<rparr>)"
      by blast
    have l': "length info' = 2"
      using matraMoved_length [OF mm] postBaseTagged_length [OF pt] len by simp
    have g0: "Glyph (info' ! 0) = 13"
      using matraMoved_front [OF mm] postBaseTagged_nth(1) [OF pt, of 1]
      by (simp add: khmerKaE_def)
    have g1: "Glyph (info' ! 1) = 10"
      using matraMoved_shifted [OF mm, of 0] postBaseTagged_nth(1) [OF pt, of 0]
      by (simp add: khmerKaE_def)
    have cm: "clusterMin info0 0 2 = 0"
      using postBaseTagged_nth(2) [OF pt, of 0] postBaseTagged_nth(2) [OF pt, of 1]
      by (simp add: clusterMin_upt upt_rec khmerKaE_def eval_nat_numeral)
    have c: "Cluster (info' ! k) = 0" if "k < 2" for k
      using matraMoved_cluster [OF mm, of k] that cm by (simp add: eval_nat_numeral)
    have G: "map Glyph info' = [13, 10]" using l' g0 g1 by (rule list2_eq)
    have Cl: "map Cluster info' = [0, 0]" using l' c [of 0] c [of 1] by (intro list2_eq) simp_all
    show ?thesis using res G Cl by simp
  qed
  have D: "\<exists>b. reorderConsonantSyllable khmerCats khmerPlan (bufferOf khmerKaCoengKha {} {}) 0 3 = Inr b \<and>
      map Glyph (Info b) = [10, 11, 14] \<and> map Cluster (Info b) = [0, 1, 2]"
  proof -
    let ?B = "bufferOf khmerKaCoengKha {} {}"
    have len: "length khmerKaCoengKha = 3" by (simp add: khmerKaCoengKha_def)
    have b: "(0 :: nat) < 3" "3 \<le> length (Info ?B)" by (simp_all add: len)
    note T = reorderConsonantSyllable_pass [of 0 3 ?B khmerPlan khmerCats 1 0, OF b]
    from T [THEN conjunct1] obtain S
      where pt: "postBaseTagged khmerPlan 0 3 khmerKaCoengKha (fst (S (Suc 0)))"
        and n0: "snd (S (Suc 0)) = 0"
        and st: "\<forall>i. 0 < i \<and> i < 3 \<longrightarrow> passStep khmerCats khmerPlan 0 3 i (S i) (S (i + 1))"
        and res: "reorderConsonantSyllable khmerCats khmerPlan ?B 0 3 = Inr (?B\<lparr>Info := fst (S 3)\<rparr>)"
      by auto
    have cat: "complexCategory (fst (S (Suc 0)) ! Suc 0) = 4"
      "complexCategory (fst (S (Suc 0)) ! Suc (Suc 0)) = 1"
      using postBaseTagged_category [OF pt, of "Suc 0"]
        postBaseTagged_category [OF pt, of "Suc (Suc 0)"]
      by (simp_all add: khmerKaCoengKha_def)
    from st [rule_format, of "Suc 0"]
    have "passStep khmerCats khmerPlan 0 3 (Suc 0) (S (Suc 0)) (S (Suc (Suc 0)))" by simp
    then have s2: "fst (S (Suc (Suc 0))) = fst (S (Suc 0))" "snd (S (Suc (Suc 0))) = 1"
      using cat n0 by (simp_all add: passStep_def case_prod_unfold)
    from st [rule_format, of "Suc (Suc 0)"]
    have "passStep khmerCats khmerPlan 0 3 (Suc (Suc 0)) (S (Suc (Suc 0))) (S (Suc (Suc (Suc 0))))"
      by simp
    then have "fst (S (Suc (Suc (Suc 0)))) = fst (S (Suc 0))"
      using cat s2 by (simp add: passStep_def case_prod_unfold)
    then have s3: "fst (S 3) = fst (S (Suc 0))" by (simp add: numeral_3_eq_3)
    have l': "length (fst (S 3)) = 3" using postBaseTagged_length [OF pt] len s3 by simp
    have G: "map Glyph (fst (S 3)) = [10, 11, 14]"
      using l' postBaseTagged_nth(1) [OF pt, of 0] postBaseTagged_nth(1) [OF pt, of 1]
        postBaseTagged_nth(1) [OF pt, of 2]
      by (intro list3_eq) (simp_all add: s3 khmerKaCoengKha_def)
    have Cl: "map Cluster (fst (S 3)) = [0, 1, 2]"
      using l' postBaseTagged_nth(2) [OF pt, of 0] postBaseTagged_nth(2) [OF pt, of 1]
        postBaseTagged_nth(2) [OF pt, of 2]
      by (intro list3_eq) (simp_all add: s3 khmerKaCoengKha_def)
    show ?thesis using res G Cl by simp
  qed
  from A C B D show ?thesis by (intro conjI)
qed

section \<open>Attaching a mark\<close>

lemma sint_int16:
  "- 32768 \<le> x \<Longrightarrow> x \<le> 32767 \<Longrightarrow> sint (word_of_int x :: 16 word) = x"
  by (simp add: sint_sbintrunc' signed_take_bit_int_eq_self)

lemma attachMark_fields:
  "XOffset (attachMark cur x y d) = x" "YOffset (attachMark cur x y d) = y"
  "attachType (attachMark cur x y d) = attachTypeMark"
  "attachChain (attachMark cur x y d) = word_of_int d"
  "XAdvance (attachMark cur x y d) = XAdvance cur" "YAdvance (attachMark cur x y d) = YAdvance cur"
  by (simp_all add: attachMark_def)

lemma flagRange_frame:
  "idx (flagRange b s e) = idx b" "Pos (flagRange b s e) = Pos b"
  "map Glyph (Info (flagRange b s e)) = map Glyph (Info b)"
proof -
  show "idx (flagRange b s e) = idx b" "Pos (flagRange b s e) = Pos b"
    by (simp_all add: flagRange_def)
  show "map Glyph (Info (flagRange b s e)) = map Glyph (Info b)"
    by (rule nth_equalityI) (simp_all add: flagRange_def nth_enumerate_eq)
qed

lemma applyGPOSMarks_run:
  assumes frame: "\<forall>b s e. idx (unsafeToBreak b s e) = idx b \<and> Pos (unsafeToBreak b s e) = Pos b \<and>
                    map Glyph (Info (unsafeToBreak b s e)) = map Glyph (Info b)"
    and mi: "0 \<le> markIndex" "markIndex < int (length (MarkRecords marks))"
            "markIndex < int (length (MarkAnchors marks))"
    and anchor: "anchors glyphIndex (uint (MarkRecords marks ! nat markIndex)) = Some glyphAnchor"
    and cur: "0 \<le> idx (ctxBuffer c)" "idx (ctxBuffer c) < int (length (Info (ctxBuffer c)))"
             "idx (ctxBuffer c) < int (length (Pos (ctxBuffer c)))"
    and gp: "0 \<le> glyphPos" "glyphPos < int (length (Info (ctxBuffer c)))"
    and ma: "getAnchor (MarkAnchors marks ! nat markIndex)
               (Glyph (Info (ctxBuffer c) ! nat (idx (ctxBuffer c)))) = Inr (markX, markY)"
    and ba: "getAnchor glyphAnchor (Glyph (Info (ctxBuffer c) ! nat glyphPos)) = Inr (baseX, baseY)"
  shows "applyGPOSMarks unsafeToBreak getAnchor fsub roundf c marks markIndex glyphIndex
           anchors glyphPos =
         Inr (True, c\<lparr>ctxBuffer := (unsafeToBreak (ctxBuffer c) glyphPos (idx (ctxBuffer c) + 1))
           \<lparr>Pos := (Pos (ctxBuffer c))[nat (idx (ctxBuffer c)) :=
                     attachMark (Pos (ctxBuffer c) ! nat (idx (ctxBuffer c)))
                       (roundf (fsub baseX markX)) (roundf (fsub baseY markY))
                       (glyphPos - idx (ctxBuffer c))],
            scratchFlags := insert bsfHasGPOSAttachment
              (scratchFlags (unsafeToBreak (ctxBuffer c) glyphPos (idx (ctxBuffer c) + 1))),
            idx := idx (ctxBuffer c) + 1\<rparr>\<rparr>)"
proof -
  let ?b = "ctxBuffer c"
  define buffer where "buffer = unsafeToBreak ?b glyphPos (idx ?b + 1)"
  have fi: "idx buffer = idx ?b" and fp: "Pos buffer = Pos ?b"
    and fg: "map Glyph (Info buffer) = map Glyph (Info ?b)"
    using frame by (simp_all add: buffer_def)
  have fl: "length (Info buffer) = length (Info ?b)"
    using fg by (metis length_map)
  have g1: "Glyph (Info buffer ! nat (idx ?b)) = Glyph (Info ?b ! nat (idx ?b))"
  proof -
    have "nat (idx ?b) < length (Info ?b)" using cur by simp
    then have "map Glyph (Info buffer) ! nat (idx ?b) = map Glyph (Info ?b) ! nat (idx ?b)"
      using fg by simp
    then show ?thesis using cur fl by simp
  qed
  have g2: "Glyph (Info buffer ! nat glyphPos) = Glyph (Info ?b ! nat glyphPos)"
  proof -
    have "map Glyph (Info buffer) ! nat glyphPos = map Glyph (Info ?b) ! nat glyphPos"
      using fg by simp
    then show ?thesis using gp fl by simp
  qed
  show ?thesis
    using mi anchor cur gp ma ba
    by (simp add: applyGPOSMarks_def Let_def buffer_def [symmetric] fi fp fl g1 g2)
qed

lemma applyGPOSMarks_no_anchor:
  assumes "0 \<le> markIndex" "markIndex < int (length (MarkRecords marks))"
    "markIndex < int (length (MarkAnchors marks))"
    "anchors glyphIndex (uint (MarkRecords marks ! nat markIndex)) = None"
  shows "applyGPOSMarks unsafeToBreak getAnchor fsub roundf c marks markIndex glyphIndex
           anchors glyphPos = Inr (False, c)"
  using assms by (simp add: applyGPOSMarks_def)

lemma markRun_fields:
  "idx (ctxBuffer (markRun n)) = int n"
  "length (Info (ctxBuffer (markRun n))) = Suc n"
  "length (Pos (ctxBuffer (markRun n))) = Suc n"
  "k \<le> n \<Longrightarrow> Info (ctxBuffer (markRun n)) ! k = glyphOf 0 0"
  "k \<le> n \<Longrightarrow> Pos (ctxBuffer (markRun n)) ! k = zeroPosition"
  by (simp_all add: markRun_def zeroContext_def bufferOf_def less_Suc_eq_le del: replicate.simps)

lemma markRun_attach:
  "applyGPOSMarks flagRange unitAnchor (-) roundUnits (markRun n) thaiMarks 0 0 thaiBases 0 =
   Inr (True, (markRun n)\<lparr>ctxBuffer := (flagRange (ctxBuffer (markRun n)) 0 (int n + 1))
      \<lparr>Pos := (Pos (ctxBuffer (markRun n)))[n :=
                attachMark zeroPosition (roundUnits 320) (roundUnits 50) (0 - int n)],
       scratchFlags := insert bsfHasGPOSAttachment
         (scratchFlags (flagRange (ctxBuffer (markRun n)) 0 (int n + 1))),
       idx := int n + 1\<rparr>\<rparr>)"
  using applyGPOSMarks_run [where unsafeToBreak = flagRange and marks = thaiMarks
      and markIndex = 0 and anchors = thaiBases and glyphIndex = 0 and glyphAnchor = "(300, 500)"
      and c = "markRun n" and glyphPos = 0 and getAnchor = unitAnchor and markX = "- 20"
      and markY = 450 and baseX = 300 and baseY = 500 and fsub = "(-)" and roundf = roundUnits]
  by (simp add: flagRange_frame markRun_fields thaiMarks_def thaiBases_def unitAnchor_def)

text \<open>
  What \<open>applyGPOSMarks\<close> does when it attaches. Let \<open>unsafeToBreak\<close> leave the cursor, the
  positions and the glyph ids of the buffer alone. When the mark index is in range, the anchor
  matrix has an anchor for the glyph index and the class of the mark, the cursor and \<open>glyphPos\<close>
  are inside the buffer and \<open>getAnchor\<close> yields \<open>(markX, markY)\<close> for the mark at the cursor and
  \<open>(baseX, baseY)\<close> for the glyph at \<open>glyphPos\<close>, \<open>applyGPOSMarks\<close> returns true; the position of
  the mark then has the offsets \<open>roundf (baseX - markX)\<close> and \<open>roundf (baseY - markY)\<close> and the
  attach type \<open>attachTypeMark\<close>, its attach chain is \<open>glyphPos - idx\<close> cut to 16 bits, which is
  the signed distance \<open>glyphPos - idx\<close> whenever that lies between \<open>-32768\<close> and \<open>32767\<close>, the
  scratch flag \<open>bsfHasGPOSAttachment\<close> is set and the cursor has moved on by one.
\<close>

lemma applyGPOSMarks_attaches:
  assumes frame: "\<forall>b s e. idx (unsafeToBreak b s e) = idx b \<and> Pos (unsafeToBreak b s e) = Pos b \<and>
                    map Glyph (Info (unsafeToBreak b s e)) = map Glyph (Info b)"
    and mi: "0 \<le> markIndex" "markIndex < int (length (MarkRecords marks))"
            "markIndex < int (length (MarkAnchors marks))"
    and anchor: "anchors glyphIndex (uint (MarkRecords marks ! nat markIndex)) = Some glyphAnchor"
    and cur: "0 \<le> idx (ctxBuffer c)" "idx (ctxBuffer c) < int (length (Info (ctxBuffer c)))"
             "idx (ctxBuffer c) < int (length (Pos (ctxBuffer c)))"
    and gp: "0 \<le> glyphPos" "glyphPos < int (length (Info (ctxBuffer c)))"
    and ma: "getAnchor (MarkAnchors marks ! nat markIndex)
               (Glyph (Info (ctxBuffer c) ! nat (idx (ctxBuffer c)))) = Inr (markX, markY)"
    and ba: "getAnchor glyphAnchor (Glyph (Info (ctxBuffer c) ! nat glyphPos)) = Inr (baseX, baseY)"
  shows "\<exists>c'. applyGPOSMarks unsafeToBreak getAnchor fsub roundf c marks markIndex glyphIndex
                 anchors glyphPos = Inr (True, c') \<and>
           XOffset (Pos (ctxBuffer c') ! nat (idx (ctxBuffer c))) = roundf (fsub baseX markX) \<and>
           YOffset (Pos (ctxBuffer c') ! nat (idx (ctxBuffer c))) = roundf (fsub baseY markY) \<and>
           attachType (Pos (ctxBuffer c') ! nat (idx (ctxBuffer c))) = attachTypeMark \<and>
           attachChain (Pos (ctxBuffer c') ! nat (idx (ctxBuffer c))) =
             word_of_int (glyphPos - idx (ctxBuffer c)) \<and>
           (- 32768 \<le> glyphPos - idx (ctxBuffer c) \<and> glyphPos - idx (ctxBuffer c) \<le> 32767 \<longrightarrow>
              sint (attachChain (Pos (ctxBuffer c') ! nat (idx (ctxBuffer c)))) =
                glyphPos - idx (ctxBuffer c)) \<and>
           bsfHasGPOSAttachment \<in> scratchFlags (ctxBuffer c') \<and>
           idx (ctxBuffer c') = idx (ctxBuffer c) + 1"
proof -
  let ?b = "ctxBuffer c"
  define cur' where "cur' = attachMark (Pos ?b ! nat (idx ?b))
      (roundf (fsub baseX markX)) (roundf (fsub baseY markY)) (glyphPos - idx ?b)"
  define c' where "c' = c\<lparr>ctxBuffer := (unsafeToBreak ?b glyphPos (idx ?b + 1))
      \<lparr>Pos := (Pos ?b)[nat (idx ?b) := cur'],
       scratchFlags := insert bsfHasGPOSAttachment
         (scratchFlags (unsafeToBreak ?b glyphPos (idx ?b + 1))),
       idx := idx ?b + 1\<rparr>\<rparr>"
  have run: "applyGPOSMarks unsafeToBreak getAnchor fsub roundf c marks markIndex glyphIndex
               anchors glyphPos = Inr (True, c')"
    unfolding c'_def cur'_def using assms by (rule applyGPOSMarks_run)
  have p: "Pos (ctxBuffer c') ! nat (idx ?b) = cur'"
    using cur by (simp add: c'_def)
  have chain: "sint (attachChain cur') = glyphPos - idx ?b"
    if "- 32768 \<le> glyphPos - idx ?b \<and> glyphPos - idx ?b \<le> 32767"
  proof -
    have "attachChain cur' = word_of_int (glyphPos - idx ?b)"
      by (simp only: cur'_def attachMark_fields)
    then show ?thesis using that sint_int16 [of "glyphPos - idx ?b"] by (simp only:)
  qed
  show ?thesis
    using run p chain by (intro exI [of _ c']) (simp add: cur'_def attachMark_fields c'_def)
qed

lemma applyGPOSMarks_attaches_thai:
  "\<exists>c'. applyGPOSMarks flagRange unitAnchor (-) roundUnits (markRun 1) thaiMarks 0 0 thaiBases 0 =
          Inr (True, c') \<and>
     XOffset (Pos (ctxBuffer c') ! 1) = 320 \<and> YOffset (Pos (ctxBuffer c') ! 1) = 50 \<and>
     attachType (Pos (ctxBuffer c') ! 1) = 1 \<and> sint (attachChain (Pos (ctxBuffer c') ! 1)) = - 1 \<and>
     idx (ctxBuffer c') = 2"
  using applyGPOSMarks_attaches [where unsafeToBreak = flagRange and marks = thaiMarks
      and markIndex = 0 and anchors = thaiBases and glyphIndex = 0 and glyphAnchor = "(300, 500)"
      and c = "markRun 1" and glyphPos = 0 and getAnchor = unitAnchor and markX = "- 20"
      and markY = 450 and baseX = 300 and baseY = 500 and fsub = "(-)" and roundf = roundUnits]
  by (simp add: flagRange_frame markRun_fields thaiMarks_def thaiBases_def unitAnchor_def
      roundUnits_def attachTypeMark_def) blast

text \<open>
  Claim C7 says that the attach chain is set to the signed distance from the mark to its parent
  glyph; the field is documented in glyph.go as relative to the current glyph, "negative for
  going back". \<open>applyGPOSMarks\<close> stores \<open>int16(glyphPos - buffer.idx)\<close> without checking that the
  distance fits: for a mark at index 40000 attached to the glyph at index 0 it returns true, the
  signed distance is \<open>-40000\<close>, and the attach chain stored is \<open>25536\<close>, which points forward,
  past the mark.
\<close>

theorem applyGPOSMarks_chain_truncated:
  "\<exists>c'. applyGPOSMarks flagRange unitAnchor (-) roundUnits (markRun 40000) thaiMarks 0 0 thaiBases 0 =
          Inr (True, c') \<and>
     sint (attachChain (Pos (ctxBuffer c') ! 40000)) = 25536 \<and>
     0 - idx (ctxBuffer (markRun 40000)) = - 40000 \<and>
     length (Info (ctxBuffer (markRun 40000))) = 40001"
  by (simp add: markRun_attach markRun_fields attachMark_fields)

end
